theory Spec2Isabelle
  imports Complex_Main "HOL-Library.Multiset"
begin

section \<open>Errors\<close>

text \<open>
  \<open>helpers.py\<close> raises nothing by itself: its failures are numpy's. An empty index
  array read at position 0 and a fancy index beyond an array raise \<open>IndexError\<close>;
  \<open>numpy.concatenate\<close> of an empty sequence raises \<open>ValueError\<close>.
  \<open>MalformedLoopError\<close> and \<open>EmptyResultError\<close> are the error names of the
  specification; no path of the source produces them.
\<close>

datatype error = IndexError | ValueError | MalformedLoopError | EmptyResultError

section \<open>Line segments\<close>

text \<open>
  A line carries the ids of its two points in stored order (\<open>line.points[0].id\<close>,
  \<open>line.points[1].id\<close>) and a sign; \<open>sign_pos\<close> is the sign \<open>+1\<close>.
\<close>

record line =
  tail_id :: int
  head_id :: int
  sign_pos :: bool

text \<open>
  Modelled from the spec: the class of lines and its unary minus are not part of
  \<open>helpers.py\<close>. By the data model a segment is a stored pair of point ids plus a sign
  flag, and a segment of sign \<open>-1\<close> is traversed from its stored head to its stored
  tail. Negation builds a new segment with the same stored pair and the opposite sign.
\<close>

definition neg_line :: "line \<Rightarrow> line" where
  "neg_line l = l\<lparr>sign_pos := \<not> sign_pos l\<rparr>"

definition stored :: "line \<Rightarrow> int \<times> int" where
  "stored l = (tail_id l, head_id l)"

definition eff_tail :: "line \<Rightarrow> int" where
  "eff_tail l = (if sign_pos l then tail_id l else head_id l)"

definition eff_head :: "line \<Rightarrow> int" where
  "eff_head l = (if sign_pos l then head_id l else tail_id l)"

section \<open>orient\_lines\<close>

text \<open>
  The working store of \<open>orient_lines\<close>: the caller's list object \<open>lines\<close>, which the
  function only reads, and the three arrays it builds and updates in place.
\<close>

record orient_state =
  lines_arg :: "line list"
  point_pair_ids :: "(int \<times> int) list"
  order :: "nat list"
  oriented :: "bool list"

text \<open>\<open>numpy.where(inn == out)[0]\<close>: the positions of \<open>out\<close> in \<open>inn\<close>, ascending.\<close>

definition where_eq :: "int list \<Rightarrow> int \<Rightarrow> nat list" where
  "where_eq inn out = filter (\<lambda>i. inn ! i = out) [0..<length inn]"

text \<open>\<open>a[[j, k]] = a[[k, j]]\<close>: the right-hand side is copied before the assignment.\<close>

definition swap_rows :: "'a list \<Rightarrow> nat \<Rightarrow> nat \<Rightarrow> 'a list" where
  "swap_rows a j k = a[j := a ! k, k := a ! j]"

text \<open>\<open>point_pair_ids[j:] = numpy.flip(point_pair_ids[j:], axis=1)\<close>\<close>

definition flip_from :: "nat \<Rightarrow> (int \<times> int) list \<Rightarrow> (int \<times> int) list" where
  "flip_from j ppi = take j ppi @ map prod.swap (drop j ppi)"

text \<open>\<open>oriented[j:] ^= True\<close>\<close>

definition toggle_from :: "nat \<Rightarrow> bool list \<Rightarrow> bool list" where
  "toggle_from j ori = take j ori @ map Not (drop j ori)"

definition reorder :: "nat \<Rightarrow> nat \<Rightarrow> orient_state \<Rightarrow> orient_state" where
  "reorder j k st =
     st\<lparr>point_pair_ids := swap_rows (point_pair_ids st) j k,
        order := swap_rows (order st) j k\<rparr>"

text \<open>
  One pass of the loop body, for \<open>1 \<le> j < N\<close>. When both searches come back empty,
  \<open>wh[0]\<close> raises \<open>IndexError\<close>; the pool has been flipped by then, and the store at
  the raise is returned with the error.
\<close>

definition orient_step :: "nat \<Rightarrow> orient_state \<Rightarrow> (error \<times> orient_state) + orient_state" where
  "orient_step j st =
     (let ppi = point_pair_ids st;
          out = snd (ppi ! (j - 1));
          wh = map (\<lambda>i. i + j) (where_eq (map fst (drop j ppi)) out)
      in if wh = [] then
           (let wh2 = map (\<lambda>i. i + j) (where_eq (map snd (drop j ppi)) out);
                st1 = st\<lparr>point_pair_ids := flip_from j ppi,
                         oriented := toggle_from j (oriented st)\<rparr>
            in if wh2 = [] then Inl (IndexError, st1)
               else Inr (reorder j (hd wh2) st1))
         else Inr (reorder j (hd wh) st))"

fun orient_loop :: "nat list \<Rightarrow> orient_state \<Rightarrow> (error \<times> orient_state) + orient_state" where
  "orient_loop [] st = Inr st"
| "orient_loop (j # js) st =
     (case orient_step j st of
        Inl e \<Rightarrow> Inl e
      | Inr st' \<Rightarrow> orient_loop js st')"

definition init_state :: "line list \<Rightarrow> orient_state" where
  "init_state ls =
     \<lparr>lines_arg = ls,
      point_pair_ids = map (\<lambda>l. (tail_id l, head_id l)) ls,
      order = [0..<length ls],
      oriented = replicate (length ls) True\<rparr>"

text \<open>The two list comprehensions that build the result from the final store.\<close>

definition reconstruct :: "orient_state \<Rightarrow> line list" where
  "reconstruct st =
     (let ls1 = map (\<lambda>i. lines_arg st ! i) (order st)
      in map (\<lambda>j. if oriented st ! j then ls1 ! j else neg_line (ls1 ! j))
           [0..<length (oriented st)])"

text \<open>
  The whole call: the store it leaves behind (at the return, or at the raise) and its
  outcome.
\<close>

definition orient_lines_run :: "line list \<Rightarrow> orient_state \<times> (error + line list)" where
  "orient_lines_run ls =
     (case orient_loop [1..<length ls] (init_state ls) of
        Inl (e, st) \<Rightarrow> (st, Inl e)
      | Inr st \<Rightarrow> (st, Inr (reconstruct st)))"

definition orient_lines :: "line list \<Rightarrow> error + line list" where
  "orient_lines ls = snd (orient_lines_run ls)"

section \<open>Meshes\<close>

text \<open>
  A cell block is \<open>meshio.CellBlock(type, data)\<close>; \<open>data\<close> is a two-dimensional integer
  array, kept as its rows together with its second dimension \<open>data.shape[1]\<close>. Point ids
  are array positions, hence natural numbers.
\<close>

record cellblock =
  ctype :: string
  carity :: nat
  cdata :: "nat list list"

text \<open>
  The element type of a floating-point array: IEEE single or double precision. The reader
  of Gmsh files in \<open>meshio\<close> builds the point array as \<open>float64\<close>.
\<close>

datatype dtype = Float32 | Float64

text \<open>
  The mesh that \<open>meshio.read\<close> hands over: the point array with its second dimension
  \<open>points.shape[1]\<close> and its element type \<open>points.dtype\<close>, the cell blocks, and the
  two dictionaries. An entry of the point array is kept as the real number it is. A value
  of \<open>point_data\<close> has one row per point, a value of \<open>cell_data\<close> one array per cell
  block.
\<close>

record mesh =
  pdim :: nat
  pdtype :: dtype
  points :: "real list list"
  cells :: "cellblock list"
  point_data :: "(string \<times> real list list) list"
  cell_data :: "(string \<times> real list list) list"

subsection \<open>Keeping the cells of highest dimension (\<open>remove_lower_dim_cells\<close>)\<close>

definition cells_2d :: "string set" where
  "cells_2d = {''triangle'', ''quad''}"

definition cells_3d :: "string set" where
  "cells_3d = {''tetra'', ''hexahedron'', ''wedge'', ''pyramid'', ''penta_prism'', ''hexa_prism''}"

definition keep_types :: "cellblock list \<Rightarrow> string set" where
  "keep_types cs =
     (if \<exists>c \<in> set cs. ctype c \<in> cells_3d then cells_3d
      else if \<exists>c \<in> set cs. ctype c \<in> cells_2d then cells_2d
      else set (map ctype cs))"

definition cell_type_filter :: "mesh \<Rightarrow> mesh" where
  "cell_type_filter m =
     (let kt = keep_types (cells m)
      in m\<lparr>cell_data :=
             map (\<lambda>(name, val).
                    (name, map fst (filter (\<lambda>(d, c). ctype c \<in> kt) (zip val (cells m)))))
               (cell_data m),
           cells := filter (\<lambda>c. ctype c \<in> kt) (cells m)\<rparr>)"

subsection \<open>Dropping the points no cell uses (\<open>prune_vertices\<close>)\<close>

text \<open>\<open>numpy.concatenate\<close> refuses an empty sequence of arrays.\<close>

definition np_concatenate :: "'a list list \<Rightarrow> error + 'a list" where
  "np_concatenate arrs = (if arrs = [] then Inl ValueError else Inr (concat arrs))"

text \<open>\<open>[numpy.concatenate(c) for _, c in mesh.cells]\<close>\<close>

fun concat_each :: "cellblock list \<Rightarrow> error + nat list list" where
  "concat_each [] = Inr []"
| "concat_each (c # cs) =
     (case np_concatenate (cdata c) of
        Inl e \<Rightarrow> Inl e
      | Inr a \<Rightarrow> (case concat_each cs of Inl e \<Rightarrow> Inl e | Inr as \<Rightarrow> Inr (a # as)))"

fun index_of :: "nat list \<Rightarrow> nat \<Rightarrow> nat" where
  "index_of [] v = 0"
| "index_of (u # us) v = (if u = v then 0 else Suc (index_of us v))"

text \<open>
  \<open>numpy.unique(ar, return_inverse=True)\<close>: the sorted distinct values, and for every
  entry of \<open>ar\<close> its position among them.
\<close>

definition np_unique_inverse :: "nat list \<Rightarrow> nat list \<times> nat list" where
  "np_unique_inverse ar = (let u = sort (remdups ar) in (u, map (index_of u) ar))"

text \<open>\<open>a.reshape((r, c))\<close> of a flat array of \<open>r * c\<close> entries.\<close>

definition reshape :: "nat \<Rightarrow> nat \<Rightarrow> 'a list \<Rightarrow> 'a list list" where
  "reshape r c flat = map (\<lambda>i. take c (drop (i * c) flat)) [0..<r]"

text \<open>The loop that cuts \<open>uidx\<close> back into blocks: \<open>uidx[k : k + n].reshape(shape)\<close>.\<close>

fun rebuild_cells :: "nat list \<Rightarrow> nat \<Rightarrow> cellblock list \<Rightarrow> cellblock list" where
  "rebuild_cells uidx k [] = []"
| "rebuild_cells uidx k (c # cs) =
     (let n = length (cdata c) * carity c
      in c\<lparr>cdata := reshape (length (cdata c)) (carity c) (take n (drop k uidx))\<rparr>
           # rebuild_cells uidx (k + n) cs)"

text \<open>\<open>arr[idx]\<close> with an index array: a position beyond the array raises.\<close>

definition np_take :: "'a list \<Rightarrow> nat list \<Rightarrow> error + 'a list" where
  "np_take arr idx =
     (if list_all (\<lambda>i. i < length arr) idx then Inr (map (\<lambda>i. arr ! i) idx)
      else Inl IndexError)"

fun take_each :: "(string \<times> 'a list) list \<Rightarrow> nat list \<Rightarrow> error + (string \<times> 'a list) list" where
  "take_each [] idx = Inr []"
| "take_each ((key, arr) # kvs) idx =
     (case np_take arr idx of
        Inl e \<Rightarrow> Inl e
      | Inr a \<Rightarrow> (case take_each kvs idx of Inl e \<Rightarrow> Inl e | Inr r \<Rightarrow> Inr ((key, a) # r)))"

definition vertex_pruner :: "mesh \<Rightarrow> error + mesh" where
  "vertex_pruner m =
     (case concat_each (cells m) of
        Inl e \<Rightarrow> Inl e
      | Inr parts \<Rightarrow>
          (case np_concatenate parts of
             Inl e \<Rightarrow> Inl e
           | Inr ncells \<Rightarrow>
               (let (uvertices, uidx) = np_unique_inverse ncells;
                    cells' = rebuild_cells uidx 0 (cells m)
                in case np_take (points m) uvertices of
                     Inl e \<Rightarrow> Inl e
                   | Inr pts \<Rightarrow>
                       (case take_each (point_data m) uvertices of
                          Inl e \<Rightarrow> Inl e
                        | Inr pd \<Rightarrow> Inr (m\<lparr>points := pts, cells := cells', point_data := pd\<rparr>)))))"

subsection \<open>Dropping a flat third coordinate (\<open>prune_z_0\<close>)\<close>

text \<open>
  The threshold of \<open>numpy.abs(mesh.points[:, 2]) < 1.0e-13\<close>. The literal \<open>1.0e-13\<close>
  is a Python float, the \<open>float64\<close> number \<open>7922816251426434 / 2^96\<close>. numpy compares
  in the element type of the array: against a \<open>float32\<close> array the literal is first
  cast to \<open>float32\<close>, which rounds it to \<open>14757395 / 2^67\<close>. The comparison of two
  numbers of one element type is exact.
\<close>

definition z_tol :: "dtype \<Rightarrow> real" where
  "z_tol dt = (case dt of Float64 \<Rightarrow> 7922816251426434 / 2 ^ 96
               | Float32 \<Rightarrow> 14757395 / 2 ^ 67)"

definition dimension_reducer :: "mesh \<Rightarrow> mesh" where
  "dimension_reducer m =
     (if pdim m = 3 \<and> list_all (\<lambda>p. \<bar>p ! 2\<bar> < z_tol (pdtype m)) (points m)
      then m\<lparr>pdim := 2, points := map (take 2) (points m)\<rparr>
      else m)"

subsection \<open>The post-processing of \<open>generate_mesh\<close>\<close>

text \<open>
  What \<open>generate_mesh\<close> does to the mesh it has read, under its three flags, in the
  order of the source. Writing the geometry, running Gmsh and removing the files are
  left out.
\<close>

definition generate_mesh :: "bool \<Rightarrow> bool \<Rightarrow> bool \<Rightarrow> mesh \<Rightarrow> error + mesh" where
  "generate_mesh prune_vertices prune_z_0 remove_lower_dim_cells m =
     (let m1 = (if remove_lower_dim_cells then cell_type_filter m else m)
      in case (if prune_vertices then vertex_pruner m1 else Inr m1) of
           Inl e \<Rightarrow> Inl e
         | Inr m2 \<Rightarrow> Inr (if prune_z_0 then dimension_reducer m2 else m2))"

section \<open>Notions for the statements and their proofs\<close>

subsection \<open>Runs of \<open>orient_lines\<close>\<close>

text \<open>A stored pair as it is traversed: as stored under \<open>True\<close>, swapped under \<open>False\<close>.\<close>

definition orient_pair :: "bool \<Rightarrow> int \<times> int \<Rightarrow> int \<times> int" where
  "orient_pair b p = (if b then p else prod.swap p)"

text \<open>The store after the pool from \<open>j\<close> on has been flipped and its flags toggled.\<close>

definition flip_pool :: "nat \<Rightarrow> orient_state \<Rightarrow> orient_state" where
  "flip_pool j st = st\<lparr>point_pair_ids := flip_from j (point_pair_ids st),
                        oriented := toggle_from j (oriented st)\<rparr>"

text \<open>
  What holds of the store before pass \<open>j\<close>: the arrays have the length of the input,
  \<open>order\<close> is a permutation of the positions, every row of \<open>point_pair_ids\<close> is the
  stored pair of the segment \<open>order\<close> names there, swapped exactly where \<open>oriented\<close>
  is false, the flags agree from \<open>j\<close> on, position 0 is untouched, and the rows
  placed so far chain head to tail.
\<close>

definition orient_inv :: "line list \<Rightarrow> nat \<Rightarrow> orient_state \<Rightarrow> bool" where
  "orient_inv xs j st \<longleftrightarrow>
     lines_arg st = xs \<and>
     length (point_pair_ids st) = length xs \<and>
     length (order st) = length xs \<and>
     length (oriented st) = length xs \<and>
     mset (order st) = mset [0..<length xs] \<and>
     (\<forall>k < length xs. point_pair_ids st ! k =
         orient_pair (oriented st ! k) (stored (xs ! (order st ! k)))) \<and>
     (\<forall>k l. j \<le> k \<and> k < length xs \<and> j \<le> l \<and> l < length xs \<longrightarrow>
         oriented st ! k = oriented st ! l) \<and>
     (0 < length xs \<longrightarrow> order st ! 0 = 0 \<and> oriented st ! 0) \<and>
     (\<forall>i. Suc i < j \<longrightarrow> snd (point_pair_ids st ! i) = fst (point_pair_ids st ! Suc i))"

subsection \<open>Simple cycles\<close>

text \<open>The undirected edge under a pair: its two ids in ascending order.\<close>

definition und :: "int \<times> int \<Rightarrow> int \<times> int" where
  "und p = (min (fst p) (snd p), max (fst p) (snd p))"

text \<open>
  The edges of the closed walk along \<open>vs\<close>: from every entry to the next one, and
  from the last entry back to the first.
\<close>

definition cyc_edges :: "int list \<Rightarrow> (int \<times> int) list" where
  "cyc_edges vs = map (\<lambda>i. (vs ! i, vs ! (Suc i mod length vs))) [0..<length vs]"

text \<open>
  The precondition of \<open>orient_lines\<close>: there is at least one segment, and the
  segments are, as undirected edges and counted with multiplicity, the edges of a closed
  walk through pairwise distinct points. One segment from a point to itself and two
  segments between the same two points are the cycles of length 1 and 2.
\<close>

definition simple_cycle :: "(int \<times> int) list \<Rightarrow> bool" where
  "simple_cycle es \<longleftrightarrow>
     es \<noteq> [] \<and>
     (\<exists>vs. distinct vs \<and> length vs = length es \<and>
        mset (map und es) = mset (map und (cyc_edges vs)))"

text \<open>
  Before pass \<open>j\<close> of a run on a cycle along \<open>ws\<close>: the rows placed so far are the
  first \<open>j\<close> edges of the walk, in its direction, and the pool holds the remaining
  edges in some order and direction.
\<close>

definition cyc_inv :: "int list \<Rightarrow> nat \<Rightarrow> (int \<times> int) list \<Rightarrow> bool" where
  "cyc_inv ws j ppi \<longleftrightarrow>
     distinct ws \<and> length ws = length ppi \<and>
     (\<forall>i < j. ppi ! i = (ws ! i, ws ! (Suc i mod length ws))) \<and>
     mset (map und (drop j ppi)) = mset (map und (drop j (cyc_edges ws)))"

text \<open>Edge \<open>i\<close> of the reversed walk is edge \<open>mirror n i\<close> of the walk, reversed.\<close>

definition mirror :: "nat \<Rightarrow> nat \<Rightarrow> nat" where
  "mirror n i = (if Suc i = n then i else n - 2 - i)"

subsection \<open>Properties of a result\<close>

text \<open>The undirected edge under a segment.\<close>

definition und_edge :: "line \<Rightarrow> int \<times> int" where
  "und_edge l = und (stored l)"

text \<open>\<open>ys\<close> is a permutation of \<open>xs\<close> in which each segment is kept or negated.\<close>

definition flipped_permutation :: "line list \<Rightarrow> line list \<Rightarrow> bool" where
  "flipped_permutation xs ys \<longleftrightarrow>
     length ys = length xs \<and>
     (\<exists>p. mset p = mset [0..<length xs] \<and>
        (\<forall>i < length xs. ys ! i = xs ! (p ! i) \<or> ys ! i = neg_line (xs ! (p ! i))))"

text \<open>Every segment ends, by its sign, where the next one starts; the last one ends where the first starts.\<close>

definition closed_loop :: "line list \<Rightarrow> bool" where
  "closed_loop ys \<longleftrightarrow>
     (\<forall>i < length ys. eff_head (ys ! i) = eff_tail (ys ! (Suc i mod length ys)))"

text \<open>A freshly built line between two points: stored order as given, sign \<open>+1\<close>.\<close>

definition new_line :: "int \<Rightarrow> int \<Rightarrow> line" where
  "new_line a b = \<lparr>tail_id = a, head_id = b, sign_pos = True\<rparr>"

text \<open>
  Two triangles that share point \<open>1\<close>: pass 1 looks for a segment that starts at
  \<open>1\<close> and has two of them to choose from, at positions 1 and 2.
\<close>

definition figure_eight :: "line list" where
  "figure_eight = [new_line 0 1, new_line 1 2, new_line 1 3, new_line 2 1, new_line 3 1]"

text \<open>
  Position \<open>k\<close> is the lowest one from \<open>j\<close> on whose component \<open>f\<close> (stored tail
  or stored head) is \<open>out\<close>; \<open>no_match\<close>: there is no such position.
\<close>

definition lowest_match ::
  "(int \<times> int \<Rightarrow> int) \<Rightarrow> nat \<Rightarrow> (int \<times> int) list \<Rightarrow> int \<Rightarrow> nat \<Rightarrow> bool" where
  "lowest_match f j ppi out k \<longleftrightarrow>
     j \<le> k \<and> k < length ppi \<and> f (ppi ! k) = out \<and>
     (\<forall>i. j \<le> i \<and> i < k \<longrightarrow> f (ppi ! i) \<noteq> out)"

definition no_match :: "(int \<times> int \<Rightarrow> int) \<Rightarrow> nat \<Rightarrow> (int \<times> int) list \<Rightarrow> int \<Rightarrow> bool" where
  "no_match f j ppi out \<longleftrightarrow> (\<forall>i. j \<le> i \<and> i < length ppi \<longrightarrow> f (ppi ! i) \<noteq> out)"

text \<open>
  Pass \<open>j\<close>, run on the store \<open>st\<close>, took position \<open>k\<close> and left the store
  \<open>st'\<close>: \<open>k\<close> is the lowest tail match and was swapped into place, or, there
  being no tail match, the pool was flipped, and \<open>k\<close> is the lowest head match and was
  swapped into place.
\<close>

definition step_selects_lowest :: "nat \<Rightarrow> orient_state \<Rightarrow> nat \<Rightarrow> orient_state \<Rightarrow> bool" where
  "step_selects_lowest j st k st' \<longleftrightarrow>
     (let ppi = point_pair_ids st; out = snd (ppi ! (j - 1))
      in (lowest_match fst j ppi out k \<and> st' = reorder j k st) \<or>
         (no_match fst j ppi out \<and> lowest_match snd j ppi out k \<and>
          st' = reorder j k (flip_pool j st)))"

text \<open>The degree of a point id: the number of segment ends at it.\<close>

definition degree :: "(int \<times> int) list \<Rightarrow> int \<Rightarrow> nat" where
  "degree es v = length (filter (\<lambda>e. fst e = v) es) + length (filter (\<lambda>e. snd e = v) es)"

definition incidence :: "int \<Rightarrow> int \<times> int \<Rightarrow> nat" where
  "incidence v e = (if fst e = v then 1 else 0) + (if snd e = v then 1 else 0)"

subsection \<open>A second call on the result of the first\<close>

text \<open>The flags agree from position \<open>a\<close> on.\<close>

definition uniform_from :: "nat \<Rightarrow> orient_state \<Rightarrow> bool" where
  "uniform_from a st \<longleftrightarrow>
     (\<forall>k l. a \<le> k \<and> k < length (oriented st) \<and> a \<le> l \<and> l < length (oriented st) \<longrightarrow>
         oriented st ! k = oriented st ! l)"

text \<open>
  What a run remembers of its flips: where the flag changes between \<open>i - 1\<close> and
  \<open>i\<close>, pass \<open>i\<close> found no tail match, so that no row from \<open>i\<close> on, read in the
  direction the pool had after the flip, ends at the id that was looked for.
\<close>

definition flip_trace :: "nat \<Rightarrow> orient_state \<Rightarrow> bool" where
  "flip_trace j st \<longleftrightarrow>
     (\<forall>i. 1 \<le> i \<and> i < j \<and> oriented st ! i \<noteq> oriented st ! (i - 1) \<longrightarrow>
        (\<forall>k. i \<le> k \<and> k < length (point_pair_ids st) \<longrightarrow>
           snd (orient_pair (oriented st ! k = oriented st ! i) (point_pair_ids st ! k))
             \<noteq> snd (point_pair_ids st ! (i - 1))))"

definition trace_inv :: "nat \<Rightarrow> orient_state \<Rightarrow> bool" where
  "trace_inv j st \<longleftrightarrow> uniform_from (j - 1) st \<and> flip_trace j st"

text \<open>
  The store of the second call before pass \<open>j\<close>, in terms of the final store \<open>fin\<close>
  of the first: \<open>order\<close> is still the identity, the rows below \<open>j\<close> and their flags
  are those of \<open>fin\<close>, and the pool is that of \<open>fin\<close> in the direction of flag
  \<open>j - 1\<close>.
\<close>

definition replay_rel :: "orient_state \<Rightarrow> nat \<Rightarrow> orient_state \<Rightarrow> bool" where
  "replay_rel fin j st \<longleftrightarrow>
     length (point_pair_ids st) = length (point_pair_ids fin) \<and>
     length (oriented st) = length (point_pair_ids fin) \<and>
     order st = [0..<length (point_pair_ids fin)] \<and>
     (\<forall>k < length (point_pair_ids fin). point_pair_ids st ! k =
        (if k < j then point_pair_ids fin ! k
         else orient_pair (oriented fin ! k = oriented fin ! (j - 1)) (point_pair_ids fin ! k))) \<and>
     (\<forall>k < length (point_pair_ids fin). oriented st ! k =
        (if k < j then oriented fin ! k else oriented fin ! (j - 1)))"

text \<open>
  \<open>ys\<close> is a permutation of \<open>xs\<close> with some segments negated, and \<open>zs\<close> is the
  same permutation with none negated.
\<close>

definition flips_undone :: "line list \<Rightarrow> line list \<Rightarrow> line list \<Rightarrow> bool" where
  "flips_undone xs ys zs \<longleftrightarrow>
     length ys = length xs \<and>
     (\<exists>p. mset p = mset [0..<length xs] \<and>
        zs = map (\<lambda>i. xs ! i) p \<and>
        (\<forall>i < length xs. ys ! i = xs ! (p ! i) \<or> ys ! i = neg_line (xs ! (p ! i))))"

subsection \<open>Meshes\<close>

text \<open>The positions of the blocks that the cell-type filter retains.\<close>

definition kept_positions :: "cellblock list \<Rightarrow> nat set" where
  "kept_positions cs = {i. i < length cs \<and> ctype (cs ! i) \<in> keep_types cs}"

text \<open>Small meshes on which the statements about the post-processing are run.\<close>

definition mesh_tet_tri :: mesh where
  "mesh_tet_tri =
     \<lparr>pdim = 3, pdtype = Float64,
      points = [[0, 0, 0], [1, 0, 0], [0, 1, 0], [0, 0, 1]],
      cells = [\<lparr>ctype = ''triangle'', carity = 3, cdata = [[0, 1, 2]]\<rparr>,
               \<lparr>ctype = ''tetra'', carity = 4, cdata = [[0, 1, 2, 3]]\<rparr>],
      point_data = [],
      cell_data = [(''gmsh:physical'', [[7], [9]])]\<rparr>"

text \<open>The largest absolute third component over a non-empty array of points.\<close>

definition max_abs_z :: "real list list \<Rightarrow> real" where
  "max_abs_z ps = Max ((\<lambda>p. \<bar>p ! 2\<bar>) ` set ps)"

text \<open>
  The finite numbers of an element type: an integer of at most 24 (53) bits, scaled by a
  power of two from \<open>2^-149\<close> to \<open>2^104\<close> (from \<open>2^-1074\<close> to \<open>2^971\<close>).
\<close>

definition mant_bits :: "dtype \<Rightarrow> nat" where
  "mant_bits dt = (case dt of Float32 \<Rightarrow> 24 | Float64 \<Rightarrow> 53)"

definition low_exp :: "dtype \<Rightarrow> nat" where
  "low_exp dt = (case dt of Float32 \<Rightarrow> 149 | Float64 \<Rightarrow> 1074)"

definition high_exp :: "dtype \<Rightarrow> nat" where
  "high_exp dt = (case dt of Float32 \<Rightarrow> 104 | Float64 \<Rightarrow> 971)"

definition is_float :: "dtype \<Rightarrow> real \<Rightarrow> bool" where
  "is_float dt x \<longleftrightarrow>
     (\<exists>m :: int. \<exists>e :: nat. \<bar>m\<bar> < 2 ^ mant_bits dt \<and>
        ((e \<le> low_exp dt \<and> x = of_int m / 2 ^ e) \<or> (e \<le> high_exp dt \<and> x = of_int m * 2 ^ e)))"

text \<open>The third component of every point is a number of the array's element type.\<close>

definition float_z :: "mesh \<Rightarrow> bool" where
  "float_z m \<longleftrightarrow> (\<forall>p \<in> set (points m). is_float (pdtype m) (p ! 2))"

text \<open>
  \<open>y\<close> is \<open>x\<close> up to the rounding of the element type: the two differ by at most
  \<open>|x|\<close> over \<open>2^24\<close> (over \<open>2^53\<close>).
\<close>

definition near :: "dtype \<Rightarrow> real \<Rightarrow> real \<Rightarrow> bool" where
  "near dt x y \<longleftrightarrow> \<bar>y - x\<bar> \<le> \<bar>x\<bar> / 2 ^ mant_bits dt"

text \<open>
  Three \<open>float64\<close> arrays: one flat up to \<open>2^-47\<close>, one holding the \<open>float64\<close>
  number next to \<open>-1e-12\<close>, one with two columns. And a \<open>float32\<close> array holding
  the \<open>float32\<close> number next to \<open>1e-13\<close>.
\<close>

definition mesh_flat :: mesh where
  "mesh_flat = \<lparr>pdim = 3, pdtype = Float64, points = [[0, 0, 0], [1, 0, 1 / 2 ^ 47]],
                 cells = [], point_data = [], cell_data = []\<rparr>"

definition mesh_bump :: mesh where
  "mesh_bump = \<lparr>pdim = 3, pdtype = Float64,
                 points = [[0, 0, 0], [1, 0, - (4951760157141521 / 2 ^ 92)]],
                 cells = [], point_data = [], cell_data = []\<rparr>"

definition mesh_planar :: mesh where
  "mesh_planar = \<lparr>pdim = 2, pdtype = Float64, points = [[0, 0], [1, 0]], cells = [],
                   point_data = [], cell_data = []\<rparr>"

definition mesh_single :: mesh where
  "mesh_single = \<lparr>pdim = 3, pdtype = Float32, points = [[0, 0, 0], [1, 0, 14757395 / 2 ^ 67]],
                   cells = [], point_data = [], cell_data = []\<rparr>"

text \<open>The point ids that some cell of some block refers to.\<close>

definition referenced :: "cellblock list \<Rightarrow> nat set" where
  "referenced cs = (\<Union>c \<in> set cs. \<Union>r \<in> set (cdata c). set r)"

text \<open>The referenced ids in ascending order.\<close>

definition compact_ids :: "cellblock list \<Rightarrow> nat list" where
  "compact_ids cs = sorted_list_of_set (referenced cs)"

text \<open>
  The pruned mesh in the words of the specification: every cell entry replaced by its
  position among the referenced ids, points and point data cut down to the rows at the
  referenced ids, in ascending order.
\<close>

definition compacted :: "mesh \<Rightarrow> mesh" where
  "compacted m =
     (let R = compact_ids (cells m)
      in m\<lparr>points := map (\<lambda>v. points m ! v) R,
           cells := map (\<lambda>c. c\<lparr>cdata := map (map (index_of R)) (cdata c)\<rparr>) (cells m),
           point_data := map (\<lambda>(key, arr). (key, map (\<lambda>v. arr ! v) R)) (point_data m)\<rparr>)"

text \<open>Every row of a block has the length of the block's second dimension, as in a numpy array.\<close>

definition rect_cells :: "cellblock list \<Rightarrow> bool" where
  "rect_cells cs \<longleftrightarrow> (\<forall>c \<in> set cs. \<forall>r \<in> set (cdata c). length r = carity c)"

text \<open>
  The meshes on which the pruner returns: at least one block, no block without cells,
  every referenced id inside the point array and inside every point-data array.
\<close>

definition prunable :: "mesh \<Rightarrow> bool" where
  "prunable m \<longleftrightarrow>
     cells m \<noteq> [] \<and> (\<forall>c \<in> set (cells m). cdata c \<noteq> []) \<and>
     (\<forall>v \<in> referenced (cells m). v < length (points m)) \<and>
     (\<forall>(key, arr) \<in> set (point_data m). \<forall>v \<in> referenced (cells m). v < length arr)"

text \<open>All cell entries in one list, block after block and row after row.\<close>

definition flat_cells :: "cellblock list \<Rightarrow> nat list" where
  "flat_cells cs = concat (map (\<lambda>c. concat (cdata c)) cs)"

definition mesh_loose :: mesh where
  "mesh_loose =
     \<lparr>pdim = 2, pdtype = Float64,
      points = [[0, 0], [9, 9], [1, 0], [8, 8], [7, 7], [0, 1]],
      cells = [\<lparr>ctype = ''line'', carity = 2, cdata = [[5, 2]]\<rparr>,
               \<lparr>ctype = ''triangle'', carity = 3, cdata = [[0, 2, 5]]\<rparr>],
      point_data = [(''u'', [[10], [11], [12], [13], [14], [15]])],
      cell_data = [(''gmsh:physical'', [[1], [2]])]\<rparr>"

definition mesh_tight :: mesh where
  "mesh_tight =
     \<lparr>pdim = 2, pdtype = Float64,
      points = [[0, 0], [1, 0], [0, 1]],
      cells = [\<lparr>ctype = ''line'', carity = 2, cdata = [[2, 1]]\<rparr>,
               \<lparr>ctype = ''triangle'', carity = 3, cdata = [[0, 1, 2]]\<rparr>],
      point_data = [(''u'', [[10], [12], [15]])],
      cell_data = [(''gmsh:physical'', [[1], [2]])]\<rparr>"

text \<open>The pruner run on its own result; a failure of the first run is the failure of the pair.\<close>

definition prune_twice :: "mesh \<Rightarrow> error + mesh" where
  "prune_twice m = (case vertex_pruner m of Inl e \<Rightarrow> Inl e | Inr m' \<Rightarrow> vertex_pruner m')"

definition mesh_no_cells :: mesh where
  "mesh_no_cells = \<lparr>pdim = 3, pdtype = Float64, points = [[0, 0, 0], [1, 0, 0]], cells = [],
                     point_data = [], cell_data = []\<rparr>"

section \<open>The candidate search and one pass of the loop\<close>

lemma where_eq_nth: "i \<in> set (where_eq inn out) \<longleftrightarrow> i < length inn \<and> inn ! i = out"
  by (auto simp: where_eq_def)

lemma hd_filter_upt:
  "filter P [a..<b] \<noteq> [] \<Longrightarrow>
     a \<le> hd (filter P [a..<b]) \<and> hd (filter P [a..<b]) < b \<and> P (hd (filter P [a..<b]))
         \<and> (\<forall>i. a \<le> i \<and> i < hd (filter P [a..<b]) \<longrightarrow> \<not> P i)"
proof (induction "b - a" arbitrary: a)
  case 0
  then show ?case by simp
next
  case (Suc n)
  then have ab: "a < b" by simp
  then have u: "[a..<b] = a # [Suc a..<b]" by (simp add: upt_conv_Cons)
  show ?case
  proof (cases "P a")
    case True
    then have "filter P [a..<b] = a # filter P [Suc a..<b]" by (subst u) simp
    then have h: "hd (filter P [a..<b]) = a" by simp
    show ?thesis unfolding h using True ab by auto
  next
    case False
    then have f: "filter P [a..<b] = filter P [Suc a..<b]" using u by simp
    with Suc.prems have ne: "filter P [Suc a..<b] \<noteq> []" by simp
    have "n = b - Suc a" using Suc.hyps(2) by simp
    from Suc.hyps(1)[OF this ne]
    have ih: "Suc a \<le> hd (filter P [Suc a..<b])" "hd (filter P [Suc a..<b]) < b"
      "P (hd (filter P [Suc a..<b]))"
      "\<forall>i. Suc a \<le> i \<and> i < hd (filter P [Suc a..<b]) \<longrightarrow> \<not> P i"
      by blast+
    have "\<not> P i" if "a \<le> i \<and> i < hd (filter P [Suc a..<b])" for i
    proof (cases "i = a")
      case True
      with False show ?thesis by simp
    next
      case False
      with that have "Suc a \<le> i \<and> i < hd (filter P [Suc a..<b])" by arith
      with ih(4) show ?thesis by blast
    qed
    moreover from ih(1) have "a \<le> hd (filter P [Suc a..<b])" by arith
    ultimately show ?thesis unfolding f using ih(2,3) by blast
  qed
qed

lemma ball_upt0: "(\<forall>i\<in>{0..<n::nat}. P i) \<longleftrightarrow> (\<forall>i<n. P i)"
  by auto

lemma where_eq_drop:
  "where_eq (map f (drop j ppi)) out = filter (\<lambda>i. f (ppi ! (j + i)) = out) [0..<length ppi - j]"
  unfolding where_eq_def by (rule filter_cong) auto

lemma search_empty_iff:
  "map (\<lambda>i. i + j) (where_eq (map f (drop j ppi)) out) = [] \<longleftrightarrow>
     (\<forall>k. j \<le> k \<and> k < length ppi \<longrightarrow> f (ppi ! k) \<noteq> out)"
proof -
  have A: "(\<forall>i < length ppi - j. f (ppi ! (j + i)) \<noteq> out) \<longleftrightarrow>
        (\<forall>k. j \<le> k \<and> k < length ppi \<longrightarrow> f (ppi ! k) \<noteq> out)"
  proof (intro iffI allI impI)
    fix k assume a: "\<forall>i < length ppi - j. f (ppi ! (j + i)) \<noteq> out" and k: "j \<le> k \<and> k < length ppi"
    from k have "k - j < length ppi - j" by arith
    with a have "f (ppi ! (j + (k - j))) \<noteq> out" by blast
    moreover from k have "j + (k - j) = k" by simp
    ultimately show "f (ppi ! k) \<noteq> out" by simp
  next
    fix i assume a: "\<forall>k. j \<le> k \<and> k < length ppi \<longrightarrow> f (ppi ! k) \<noteq> out" and i: "i < length ppi - j"
    from i have "j \<le> j + i \<and> j + i < length ppi" by arith
    with a show "f (ppi ! (j + i)) \<noteq> out" by blast
  qed
  have B: "map (\<lambda>i. i + j) (where_eq (map f (drop j ppi)) out) = [] \<longleftrightarrow>
        (\<forall>i < length ppi - j. f (ppi ! (j + i)) \<noteq> out)"
    unfolding where_eq_drop map_is_Nil_conv filter_empty_conv set_upt
    by (simp only: ball_upt0)
  show ?thesis by (simp only: B A)
qed

lemma search_hd:
  assumes "map (\<lambda>i. i + j) (where_eq (map f (drop j ppi)) out) \<noteq> []"
  defines "k \<equiv> hd (map (\<lambda>i. i + j) (where_eq (map f (drop j ppi)) out))"
  shows "j \<le> k \<and> k < length ppi \<and> f (ppi ! k) = out \<and> (\<forall>i. j \<le> i \<and> i < k \<longrightarrow> f (ppi ! i) \<noteq> out)"
proof -
  define w where "w = filter (\<lambda>i. f (ppi ! (j + i)) = out) [0..<length ppi - j]"
  from assms(1) have ne: "w \<noteq> []" by (simp add: where_eq_drop w_def)
  have k: "k = hd w + j" unfolding k_def where_eq_drop w_def[symmetric] using ne by (simp add: hd_map)
  note H = hd_filter_upt[of "\<lambda>i. f (ppi ! (j + i)) = out" 0 "length ppi - j", folded w_def, OF ne]
  from H have h1: "hd w < length ppi - j" by (rule conjunct2[THEN conjunct1])
  from H have h2: "f (ppi ! (j + hd w)) = out" by (rule conjunct2[THEN conjunct2, THEN conjunct1])
  from H have h3: "\<forall>i. 0 \<le> i \<and> i < hd w \<longrightarrow> f (ppi ! (j + i)) \<noteq> out"
    by (rule conjunct2[THEN conjunct2, THEN conjunct2])
  have "f (ppi ! i) \<noteq> out" if i: "j \<le> i \<and> i < k" for i
  proof -
    from i k have "0 \<le> i - j \<and> i - j < hd w" by arith
    with h3 have "f (ppi ! (j + (i - j))) \<noteq> out" by blast
    moreover from i have "j + (i - j) = i" by arith
    ultimately show ?thesis by simp
  qed
  moreover have "j \<le> k" using k by arith
  moreover have "k < length ppi" using k h1 by arith
  moreover have "f (ppi ! k) = out" using h2 unfolding k by (simp add: add.commute)
  ultimately show ?thesis by blast
qed

text \<open>
  The three ways a pass can go: a match on the stored tail, a match on the stored head
  after none on the tail, or no match at all. In the first two the position taken is the
  lowest one from \<open>j\<close> on.
\<close>

lemma orient_step_cases:
  fixes st :: orient_state and j :: nat
  defines "ppi \<equiv> point_pair_ids st"
  defines "out \<equiv> snd (point_pair_ids st ! (j - 1))"
  defines "st1 \<equiv> st\<lparr>point_pair_ids := flip_from j (point_pair_ids st), oriented := toggle_from j (oriented st)\<rparr>"
  obtains
    (direct) k where "j \<le> k" "k < length ppi" "fst (ppi ! k) = out"
        "\<forall>i. j \<le> i \<and> i < k \<longrightarrow> fst (ppi ! i) \<noteq> out"
        "orient_step j st = Inr (reorder j k st)"
  | (flipped) k where "\<forall>i. j \<le> i \<and> i < length ppi \<longrightarrow> fst (ppi ! i) \<noteq> out"
        "j \<le> k" "k < length ppi" "snd (ppi ! k) = out"
        "\<forall>i. j \<le> i \<and> i < k \<longrightarrow> snd (ppi ! i) \<noteq> out"
        "orient_step j st = Inr (reorder j k st1)"
  | (stuck) "\<forall>i. j \<le> i \<and> i < length ppi \<longrightarrow> fst (ppi ! i) \<noteq> out \<and> snd (ppi ! i) \<noteq> out"
        "orient_step j st = Inl (IndexError, st1)"
proof -
  let ?wh = "map (\<lambda>i. i + j) (where_eq (map fst (drop j ppi)) out)"
  let ?wh2 = "map (\<lambda>i. i + j) (where_eq (map snd (drop j ppi)) out)"
  show thesis
  proof (cases "?wh = []")
    case False
    have "orient_step j st = Inr (reorder j (hd ?wh) st)"
      using False by (simp add: orient_step_def Let_def ppi_def out_def)
    with search_hd[OF False] direct show thesis by blast
  next
    case wh: True
    then have nof: "\<forall>i. j \<le> i \<and> i < length ppi \<longrightarrow> fst (ppi ! i) \<noteq> out"
      by (simp only: search_empty_iff)
    show thesis
    proof (cases "?wh2 = []")
      case False
      have "orient_step j st = Inr (reorder j (hd ?wh2) st1)"
        using wh False by (simp add: orient_step_def Let_def ppi_def out_def st1_def)
      with search_hd[OF False] nof flipped show thesis by blast
    next
      case True
      then have nos: "\<forall>i. j \<le> i \<and> i < length ppi \<longrightarrow> snd (ppi ! i) \<noteq> out"
        by (simp only: search_empty_iff)
      have "orient_step j st = Inl (IndexError, st1)"
        using wh True by (simp add: orient_step_def Let_def ppi_def out_def st1_def)
      with nof nos stuck show thesis by blast
    qed
  qed
qed

section \<open>What every run preserves\<close>

lemma length_swap_rows [simp]: "length (swap_rows a j k) = length a"
  by (simp add: swap_rows_def)

lemma nth_swap_rows:
  "j < length a \<Longrightarrow> k < length a \<Longrightarrow> i < length a \<Longrightarrow>
   swap_rows a j k ! i = (if i = k then a ! j else if i = j then a ! k else a ! i)"
  by (simp add: swap_rows_def nth_list_update)

lemma mset_swap_rows: "j < length a \<Longrightarrow> k < length a \<Longrightarrow> mset (swap_rows a j k) = mset a"
  unfolding swap_rows_def by (rule mset_swap)

lemma length_flip_from [simp]: "length (flip_from j ppi) = length ppi"
  by (simp add: flip_from_def)

lemma length_toggle_from [simp]: "length (toggle_from j ori) = length ori"
  by (simp add: toggle_from_def)

lemma nth_flip_from:
  "i < length ppi \<Longrightarrow> flip_from j ppi ! i = (if i < j then ppi ! i else prod.swap (ppi ! i))"
  by (simp add: flip_from_def nth_append min_def)

lemma nth_toggle_from:
  "i < length ori \<Longrightarrow> toggle_from j ori ! i = (if i < j then ori ! i else \<not> ori ! i)"
  by (simp add: toggle_from_def nth_append min_def)

lemma orient_pair_swap: "prod.swap (orient_pair b p) = orient_pair (\<not> b) p"
  by (simp add: orient_pair_def)

lemma orient_inv_init: "orient_inv xs 1 (init_state xs)"
  unfolding orient_inv_def init_state_def
  by (simp add: orient_pair_def stored_def)

lemma orient_inv_flip:
  assumes inv: "orient_inv xs j st" and j: "1 \<le> j"
  shows "orient_inv xs j (flip_pool j st)"
proof -
  let ?N = "length xs"
  from inv have len: "length (point_pair_ids st) = ?N" "length (order st) = ?N" "length (oriented st) = ?N"
    and rel: "\<forall>k < ?N. point_pair_ids st ! k = orient_pair (oriented st ! k) (stored (xs ! (order st ! k)))"
    and uni: "\<forall>k l. j \<le> k \<and> k < ?N \<and> j \<le> l \<and> l < ?N \<longrightarrow> oriented st ! k = oriented st ! l"
    and fst0: "0 < ?N \<longrightarrow> order st ! 0 = 0 \<and> oriented st ! 0"
    and chain: "\<forall>i. Suc i < j \<longrightarrow> snd (point_pair_ids st ! i) = fst (point_pair_ids st ! Suc i)"
    and ms: "mset (order st) = mset [0..<?N]" and la: "lines_arg st = xs"
    unfolding orient_inv_def by blast+
  have rel': "point_pair_ids (flip_pool j st) ! k =
         orient_pair (oriented (flip_pool j st) ! k) (stored (xs ! (order (flip_pool j st) ! k)))"
    if "k < ?N" for k
    using that rel len by (simp add: flip_pool_def nth_flip_from nth_toggle_from orient_pair_swap)
  have uni': "oriented (flip_pool j st) ! k = oriented (flip_pool j st) ! l"
    if "j \<le> k \<and> k < ?N \<and> j \<le> l \<and> l < ?N" for k l
    using that uni len by (simp add: flip_pool_def nth_toggle_from)
  have fst0': "order (flip_pool j st) ! 0 = 0 \<and> oriented (flip_pool j st) ! 0" if "0 < ?N"
    using that fst0 len j by (simp add: flip_pool_def nth_toggle_from)
  have chain': "snd (point_pair_ids (flip_pool j st) ! i) = fst (point_pair_ids (flip_pool j st) ! Suc i)"
    if "Suc i < j" for i
  proof (cases "Suc i < ?N")
    case True
    with that chain len show ?thesis by (simp add: flip_pool_def nth_flip_from)
  next
    case False
    with that have "j \<ge> length (point_pair_ids st)" using len by simp
    then have "flip_from j (point_pair_ids st) = point_pair_ids st" by (simp add: flip_from_def)
    with that chain show ?thesis by (simp add: flip_pool_def)
  qed
  show ?thesis
    unfolding orient_inv_def
    using rel' uni' fst0' chain' len ms la by (simp add: flip_pool_def)
qed

lemma orient_inv_reorder:
  assumes inv: "orient_inv xs j st" and j: "1 \<le> j" and jk: "j \<le> k" and k: "k < length xs"
    and m: "fst (point_pair_ids st ! k) = snd (point_pair_ids st ! (j - 1))"
  shows "orient_inv xs (Suc j) (reorder j k st)"
proof -
  let ?N = "length xs"
  let ?st' = "reorder j k st"
  from inv have len: "length (point_pair_ids st) = ?N" "length (order st) = ?N" "length (oriented st) = ?N"
    and rel: "\<forall>k < ?N. point_pair_ids st ! k = orient_pair (oriented st ! k) (stored (xs ! (order st ! k)))"
    and uni: "\<forall>k l. j \<le> k \<and> k < ?N \<and> j \<le> l \<and> l < ?N \<longrightarrow> oriented st ! k = oriented st ! l"
    and fst0: "0 < ?N \<longrightarrow> order st ! 0 = 0 \<and> oriented st ! 0"
    and chain: "\<forall>i. Suc i < j \<longrightarrow> snd (point_pair_ids st ! i) = fst (point_pair_ids st ! Suc i)"
    and ms: "mset (order st) = mset [0..<?N]" and la: "lines_arg st = xs"
    unfolding orient_inv_def by blast+
  have jN: "j < ?N" using jk k by simp
  have p: "point_pair_ids ?st' = swap_rows (point_pair_ids st) j k"
    and o: "order ?st' = swap_rows (order st) j k"
    and r: "oriented ?st' = oriented st" and la': "lines_arg ?st' = xs"
    using la by (simp_all add: reorder_def)
  have okj: "oriented st ! k = oriented st ! j" using uni jk k jN by blast
  have rel': "point_pair_ids ?st' ! i = orient_pair (oriented ?st' ! i) (stored (xs ! (order ?st' ! i)))"
    if i: "i < ?N" for i
  proof -
    consider "i = k" | "i \<noteq> k" "i = j" | "i \<noteq> k" "i \<noteq> j" by blast
    then show ?thesis
    proof cases
      case 1
      then show ?thesis using rel jN k len okj by (simp add: p o r nth_swap_rows)
    next
      case 2
      then show ?thesis using rel jN k len okj by (simp add: p o r nth_swap_rows)
    next
      case 3
      then show ?thesis using rel jN k len i by (simp add: p o r nth_swap_rows)
    qed
  qed
  have uni': "oriented ?st' ! a = oriented ?st' ! b"
    if "Suc j \<le> a \<and> a < ?N \<and> Suc j \<le> b \<and> b < ?N" for a b
  proof -
    from that have "j \<le> a \<and> a < ?N \<and> j \<le> b \<and> b < ?N" by arith
    with uni show ?thesis unfolding r by blast
  qed
  have fst0': "order ?st' ! 0 = 0 \<and> oriented ?st' ! 0" if "0 < ?N"
    using that fst0 len j jk jN k by (simp add: o r nth_swap_rows)
  have chain': "snd (point_pair_ids ?st' ! i) = fst (point_pair_ids ?st' ! Suc i)"
    if i: "Suc i < Suc j" for i
  proof (cases "Suc i = j")
    case True
    then have ij: "i = j - 1" "i < j" by arith+
    have a: "point_pair_ids ?st' ! i = point_pair_ids st ! i"
      using ij jN jk k len by (simp add: p nth_swap_rows)
    have b: "point_pair_ids ?st' ! j = point_pair_ids st ! k"
      using jN jk k len by (simp add: p nth_swap_rows)
    show ?thesis unfolding True a b using m ij by simp
  next
    case False
    with i have lt: "Suc i < j" by arith
    have a: "point_pair_ids ?st' ! i = point_pair_ids st ! i"
      using lt jN jk k len by (simp add: p nth_swap_rows)
    have b: "point_pair_ids ?st' ! Suc i = point_pair_ids st ! Suc i"
      using lt jN jk k len by (simp add: p nth_swap_rows)
    show ?thesis unfolding a b using chain lt by blast
  qed
  have ms': "mset (order ?st') = mset [0..<?N]"
    unfolding o using ms jN k len by (simp add: mset_swap_rows)
  show ?thesis
    unfolding orient_inv_def
    using rel' uni' fst0' chain' ms' la' len by (simp add: p o r)
qed

lemma orient_step_inv:
  assumes inv: "orient_inv xs j st" and j: "1 \<le> j" and jN: "j < length xs"
    and step: "orient_step j st = Inr st'"
  shows "orient_inv xs (Suc j) st'"
proof -
  from inv have len: "length (point_pair_ids st) = length xs"
    unfolding orient_inv_def by blast
  show ?thesis
  proof (cases j st rule: orient_step_cases)
    case (direct k)
    with step have "st' = reorder j k st" by simp
    with orient_inv_reorder[OF inv j direct(1)] direct(2,3) len show ?thesis by simp
  next
    case (flipped k)
    have st1: "st\<lparr>point_pair_ids := flip_from j (point_pair_ids st),
                  oriented := toggle_from j (oriented st)\<rparr> = flip_pool j st"
      by (simp add: flip_pool_def)
    from flipped(6) step have st': "st' = reorder j k (flip_pool j st)" by (simp add: st1)
    have inv1: "orient_inv xs j (flip_pool j st)" by (rule orient_inv_flip[OF inv j])
    have a: "point_pair_ids (flip_pool j st) ! k = prod.swap (point_pair_ids st ! k)"
      using flipped(2,3) by (simp add: flip_pool_def nth_flip_from)
    have b: "point_pair_ids (flip_pool j st) ! (j - 1) = point_pair_ids st ! (j - 1)"
      using j jN len by (simp add: flip_pool_def nth_flip_from)
    have m: "fst (point_pair_ids (flip_pool j st) ! k) = snd (point_pair_ids (flip_pool j st) ! (j - 1))"
      unfolding a b using flipped(4) by simp
    from flipped(3) len have "k < length xs" by simp
    from orient_inv_reorder[OF inv1 j flipped(2) this m] show ?thesis unfolding st' .
  next
    case stuck
    with step show ?thesis by simp
  qed
qed

lemma orient_loop_inv:
  "orient_inv xs j st \<Longrightarrow> 1 \<le> j \<Longrightarrow> j \<le> m \<Longrightarrow> m \<le> length xs \<Longrightarrow>
   orient_loop [j..<m] st = Inr st' \<Longrightarrow> orient_inv xs m st'"
proof (induction "m - j" arbitrary: j st)
  case 0
  then have "j = m" by simp
  with 0 show ?case by simp
next
  case (Suc n)
  then have jm: "j < m" by simp
  then have u: "[j..<m] = j # [Suc j..<m]" by (simp add: upt_conv_Cons)
  from jm Suc.prems(4) have jN: "j < length xs" by simp
  from Suc.prems(5) obtain st1 where s1: "orient_step j st = Inr st1"
    and rest: "orient_loop [Suc j..<m] st1 = Inr st'"
    unfolding u by (auto split: sum.splits)
  have inv1: "orient_inv xs (Suc j) st1"
    by (rule orient_step_inv[OF Suc.prems(1,2) jN s1])
  have "n = m - Suc j" using Suc.hyps(2) by simp
  from Suc.hyps(1)[OF this inv1 _ _ Suc.prems(4) rest] jm show ?case by simp
qed

lemma orient_loop_append:
  "orient_loop (js @ ks) st =
     (case orient_loop js st of Inl e \<Rightarrow> Inl e | Inr st' \<Rightarrow> orient_loop ks st')"
  by (induction js arbitrary: st) (simp_all split: sum.splits)

section \<open>Runs on a simple cycle\<close>

lemma und_swap [simp]: "und (prod.swap p) = und p"
  by (simp add: und_def min.commute max.commute)

lemma und_eq_iff: "und (a, b) = und (c, d) \<longleftrightarrow> (a = c \<and> b = d) \<or> (a = d \<and> b = c)"
  unfolding und_def by (simp add: min_def max_def) arith

lemma length_cyc_edges [simp]: "length (cyc_edges vs) = length vs"
  by (simp add: cyc_edges_def)

lemma nth_cyc_edges: "i < length vs \<Longrightarrow> cyc_edges vs ! i = (vs ! i, vs ! (Suc i mod length vs))"
  by (simp add: cyc_edges_def)

lemma mset_drop_swap_rows:
  assumes "j \<le> k" "k < length a"
  shows "mset (drop j (swap_rows a j k)) = mset (drop j a)"
proof -
  let ?b = "swap_rows a j k"
  have t: "take j ?b = take j a" using assms by (simp add: swap_rows_def)
  have "mset (take j ?b) + mset (drop j ?b) = mset ?b" by (simp flip: mset_append)
  also have "\<dots> = mset a" using assms by (simp add: mset_swap_rows)
  also have "\<dots> = mset (take j a) + mset (drop j a)" by (simp flip: mset_append)
  finally show ?thesis unfolding t by simp
qed

lemma set_drop_nth: "e \<in> set (drop j xs) \<longleftrightarrow> (\<exists>k. j \<le> k \<and> k < length xs \<and> xs ! k = e)"
proof
  assume "e \<in> set (drop j xs)"
  then obtain i where i: "i < length (drop j xs)" "drop j xs ! i = e"
    unfolding in_set_conv_nth by blast
  then have "j \<le> j + i \<and> j + i < length xs \<and> xs ! (j + i) = e" by simp
  then show "\<exists>k. j \<le> k \<and> k < length xs \<and> xs ! k = e" by blast
next
  assume "\<exists>k. j \<le> k \<and> k < length xs \<and> xs ! k = e"
  then obtain k where k: "j \<le> k" "k < length xs" "xs ! k = e" by blast
  then have "k - j < length (drop j xs)" "drop j xs ! (k - j) = e" by simp_all
  then show "e \<in> set (drop j xs)" unfolding in_set_conv_nth by blast
qed

lemma cyc_inv_flip:
  assumes "cyc_inv ws j ppi"
  shows "cyc_inv ws j (flip_from j ppi)"
proof -
  have d: "drop j (flip_from j ppi) = map prod.swap (drop j ppi)"
    by (cases "j \<le> length ppi") (simp_all add: flip_from_def)
  have u: "map und (map prod.swap (drop j ppi)) = map und (drop j ppi)" by simp
  have n: "flip_from j ppi ! i = ppi ! i" if "i < j" for i
  proof (cases "i < length ppi")
    case True
    with that show ?thesis by (simp add: nth_flip_from)
  next
    case False
    with that have "flip_from j ppi = ppi" by (simp add: flip_from_def)
    then show ?thesis by simp
  qed
  show ?thesis
    using assms unfolding cyc_inv_def d u by (simp add: n)
qed

lemma cyc_inv_pool_edge:
  assumes inv: "cyc_inv ws j ppi" and jk: "j \<le> k" and k: "k < length ppi"
  shows "\<exists>i. j \<le> i \<and> i < length ws \<and> und (ppi ! k) = und (ws ! i, ws ! (Suc i mod length ws))"
proof -
  from inv have eq: "mset (map und (drop j ppi)) = mset (map und (drop j (cyc_edges ws)))"
    unfolding cyc_inv_def by blast
  have "ppi ! k \<in> set (drop j ppi)" unfolding set_drop_nth using jk k by blast
  then have "und (ppi ! k) \<in> set (map und (drop j ppi))" by simp
  then have "und (ppi ! k) \<in> set (map und (drop j (cyc_edges ws)))"
    using eq by (metis set_mset_mset)
  then obtain e where e: "e \<in> set (drop j (cyc_edges ws))" "und (ppi ! k) = und e" by auto
  then obtain i where i: "j \<le> i" "i < length (cyc_edges ws)" "cyc_edges ws ! i = e"
    unfolding set_drop_nth by blast
  then have "e = (ws ! i, ws ! (Suc i mod length ws))" by (simp add: nth_cyc_edges)
  with e(2) i show ?thesis by auto
qed

lemma cyc_inv_progress:
  assumes inv: "cyc_inv ws j ppi" and jN: "j < length ppi"
  shows "\<exists>k. j \<le> k \<and> k < length ppi \<and> und (ppi ! k) = und (ws ! j, ws ! (Suc j mod length ws))"
proof -
  from inv have eq: "mset (map und (drop j ppi)) = mset (map und (drop j (cyc_edges ws)))"
    and len: "length ws = length ppi"
    unfolding cyc_inv_def by blast+
  have "cyc_edges ws ! j \<in> set (drop j (cyc_edges ws))"
    unfolding set_drop_nth using jN len by auto
  then have "und (cyc_edges ws ! j) \<in> set (map und (drop j (cyc_edges ws)))" by simp
  then have "und (cyc_edges ws ! j) \<in> set (map und (drop j ppi))"
    using eq by (metis set_mset_mset)
  then obtain e where e: "e \<in> set (drop j ppi)" "und e = und (cyc_edges ws ! j)" by auto
  then obtain k where k: "j \<le> k" "k < length ppi" "ppi ! k = e"
    unfolding set_drop_nth by blast
  with e(2) jN len show ?thesis by (auto simp: nth_cyc_edges)
qed

lemma cyc_inv_unique:
  assumes inv: "cyc_inv ws j ppi" and j: "1 \<le> j" and jk: "j \<le> k" and k: "k < length ppi"
    and m: "fst (ppi ! k) = ws ! j"
  shows "ppi ! k = (ws ! j, ws ! (Suc j mod length ws))"
proof -
  from inv have dist: "distinct ws" and len: "length ws = length ppi"
    unfolding cyc_inv_def by blast+
  have jN: "j < length ws" using jk k len by simp
  from cyc_inv_pool_edge[OF inv jk k] obtain i where i: "j \<le> i" "i < length ws"
    and e: "und (ppi ! k) = und (ws ! i, ws ! (Suc i mod length ws))" by blast
  obtain b where pk: "ppi ! k = (ws ! j, b)" using m by (cases "ppi ! k") simp
  from e[unfolded pk und_eq_iff]
  consider "ws ! j = ws ! i" "b = ws ! (Suc i mod length ws)"
    | "ws ! j = ws ! (Suc i mod length ws)" "b = ws ! i" by blast
  then show ?thesis
  proof cases
    case 1
    from 1(1) dist jN i(2) have "j = i" by (simp add: nth_eq_iff_index_eq)
    with 1(2) pk show ?thesis by simp
  next
    case 2
    from i(2) have "0 < length ws" by arith
    then have lt: "Suc i mod length ws < length ws" by (rule mod_less_divisor)
    from 2(1) dist jN lt have ji: "j = Suc i mod length ws" by (simp add: nth_eq_iff_index_eq)
    have False
    proof (cases "Suc i = length ws")
      case True
      with ji j show False by simp
    next
      case False
      with i(2) have "Suc i mod length ws = Suc i" by simp
      with ji i(1) show False by simp
    qed
    then show ?thesis ..
  qed
qed

lemma cyc_inv_place:
  assumes inv: "cyc_inv ws j ppi" and j: "1 \<le> j" and jk: "j \<le> k" and k: "k < length ppi"
    and m: "fst (ppi ! k) = ws ! j"
  shows "cyc_inv ws (Suc j) (swap_rows ppi j k)"
proof -
  let ?p = "swap_rows ppi j k"
  let ?C = "cyc_edges ws"
  from inv have dist: "distinct ws" and len: "length ws = length ppi"
    and pre: "\<forall>i < j. ppi ! i = (ws ! i, ws ! (Suc i mod length ws))"
    and eq: "mset (map und (drop j ppi)) = mset (map und (drop j ?C))"
    unfolding cyc_inv_def by blast+
  have jN: "j < length ppi" using jk k by simp
  have pk: "ppi ! k = (ws ! j, ws ! (Suc j mod length ws))"
    by (rule cyc_inv_unique[OF inv j jk k m])
  have pj: "?p ! j = ppi ! k" using jN k by (simp add: nth_swap_rows)
  have pre': "?p ! i = (ws ! i, ws ! (Suc i mod length ws))" if "i < Suc j" for i
  proof (cases "i = j")
    case True
    then show ?thesis using pj pk by simp
  next
    case False
    with that have ij: "i < j" by simp
    then have "?p ! i = ppi ! i" using jN jk k by (simp add: nth_swap_rows)
    with pre ij show ?thesis by simp
  qed
  have d1: "drop j ?p = ?p ! j # drop (Suc j) ?p"
    using jN by (simp add: Cons_nth_drop_Suc)
  have d2: "drop j ?C = ?C ! j # drop (Suc j) ?C"
    using jN len by (simp add: Cons_nth_drop_Suc)
  have "mset (map und (drop j ?p)) = mset (map und (drop j ppi))"
    using mset_drop_swap_rows[OF jk k] by simp
  with eq have "mset (map und (drop j ?p)) = mset (map und (drop j ?C))" by simp
  then have "add_mset (und (?p ! j)) (mset (map und (drop (Suc j) ?p)))
      = add_mset (und (?C ! j)) (mset (map und (drop (Suc j) ?C)))"
    unfolding d1 d2 by simp
  moreover have "und (?p ! j) = und (?C ! j)"
    using pj pk jN len by (simp add: nth_cyc_edges)
  ultimately have eq': "mset (map und (drop (Suc j) ?p)) = mset (map und (drop (Suc j) ?C))"
    by simp
  show ?thesis
    unfolding cyc_inv_def using dist len pre' eq' by simp
qed

lemma cyc_step:
  assumes inv: "cyc_inv ws j (point_pair_ids st)" and j: "1 \<le> j" and jN: "j < length (point_pair_ids st)"
  shows "\<exists>st'. orient_step j st = Inr st' \<and> cyc_inv ws (Suc j) (point_pair_ids st')"
proof -
  let ?ppi = "point_pair_ids st"
  from inv have len: "length ws = length ?ppi"
    and pre: "\<forall>i < j. ?ppi ! i = (ws ! i, ws ! (Suc i mod length ws))"
    unfolding cyc_inv_def by blast+
  from j have "j - 1 < j" by arith
  with pre have "?ppi ! (j - 1) = (ws ! (j - 1), ws ! (Suc (j - 1) mod length ws))" by blast
  moreover from j jN len have "Suc (j - 1) mod length ws = j" by simp
  ultimately have out: "snd (?ppi ! (j - 1)) = ws ! j" by simp
  show ?thesis
  proof (cases j st rule: orient_step_cases)
    case (direct k)
    from direct(3) out have "fst (?ppi ! k) = ws ! j" by simp
    from cyc_inv_place[OF inv j direct(1,2) this] direct(5)
    show ?thesis by (simp add: reorder_def)
  next
    case (flipped k)
    have inv1: "cyc_inv ws j (flip_from j ?ppi)" by (rule cyc_inv_flip[OF inv])
    have "flip_from j ?ppi ! k = prod.swap (?ppi ! k)"
      using flipped(2,3) by (simp add: nth_flip_from)
    with flipped(4) out have m: "fst (flip_from j ?ppi ! k) = ws ! j" by simp
    from flipped(3) have k: "k < length (flip_from j ?ppi)" by simp
    from cyc_inv_place[OF inv1 j flipped(2) k m] flipped(6)
    show ?thesis by (simp add: reorder_def)
  next
    case stuck
    from cyc_inv_progress[OF inv jN] obtain k where k: "j \<le> k" "k < length ?ppi"
      and e: "und (?ppi ! k) = und (ws ! j, ws ! (Suc j mod length ws))" by blast
    obtain a b where ab: "?ppi ! k = (a, b)" by (cases "?ppi ! k")
    from e[unfolded ab und_eq_iff] have "a = ws ! j \<or> b = ws ! j" by blast
    with ab have "fst (?ppi ! k) = ws ! j \<or> snd (?ppi ! k) = ws ! j" by simp
    with stuck(1) k out show ?thesis by simp
  qed
qed

lemma cyc_loop:
  "cyc_inv ws j (point_pair_ids st) \<Longrightarrow> 1 \<le> j \<Longrightarrow> j \<le> length ws \<Longrightarrow>
   \<exists>st'. orient_loop [j..<length ws] st = Inr st' \<and> cyc_inv ws (length ws) (point_pair_ids st')"
proof (induction "length ws - j" arbitrary: j st)
  case 0
  then have "j = length ws" by simp
  with 0 show ?case by simp
next
  case (Suc n)
  then have jN: "j < length ws" by simp
  then have u: "[j..<length ws] = j # [Suc j..<length ws]" by (simp add: upt_conv_Cons)
  from Suc.prems(1) have len: "length ws = length (point_pair_ids st)"
    unfolding cyc_inv_def by blast
  from cyc_step[OF Suc.prems(1,2)] jN len obtain st1 where s1: "orient_step j st = Inr st1"
    and inv1: "cyc_inv ws (Suc j) (point_pair_ids st1)" by auto
  have "n = length ws - Suc j" using Suc.hyps(2) by simp
  from Suc.hyps(1)[OF this inv1] jN obtain st' where
    "orient_loop [Suc j..<length ws] st1 = Inr st'" "cyc_inv ws (length ws) (point_pair_ids st')"
    by auto
  then show ?case unfolding u using s1 by simp
qed

subsection \<open>Starting the walk at the first segment, in its direction\<close>

lemma cyc_edges_rotate: "cyc_edges (rotate n vs) = rotate n (cyc_edges vs)"
proof (rule nth_equalityI)
  show "length (cyc_edges (rotate n vs)) = length (rotate n (cyc_edges vs))" by simp
next
  fix i assume "i < length (cyc_edges (rotate n vs))"
  then have i: "i < length vs" by simp
  then have pos: "0 < length vs" by arith
  have m: "Suc i mod length vs < length vs" "(n + i) mod length vs < length vs"
    using pos by simp_all
  have e: "(n + Suc i mod length vs) mod length vs = Suc ((n + i) mod length vs) mod length vs"
    by (simp add: mod_simps)
  have "cyc_edges (rotate n vs) ! i = (rotate n vs ! i, rotate n vs ! (Suc i mod length vs))"
    using i by (simp add: nth_cyc_edges)
  also have "\<dots> = (vs ! ((n + i) mod length vs), vs ! ((n + Suc i mod length vs) mod length vs))"
    using i m(1) by (simp add: nth_rotate)
  also have "\<dots> = cyc_edges vs ! ((n + i) mod length vs)"
    using m(2) by (simp add: nth_cyc_edges e)
  also have "\<dots> = rotate n (cyc_edges vs) ! i"
    using i by (simp add: nth_rotate)
  finally show "cyc_edges (rotate n vs) ! i = rotate n (cyc_edges vs) ! i" .
qed

lemma mirror_less: "i < n \<Longrightarrow> mirror n i < n"
  by (simp add: mirror_def)

lemma mirror_mirror: "i < n \<Longrightarrow> mirror n (mirror n i) = i"
  unfolding mirror_def by (simp split: if_splits) arith

lemma cyc_edges_rev:
  assumes i: "i < length vs"
  shows "cyc_edges (rev vs) ! i = prod.swap (cyc_edges vs ! mirror (length vs) i)"
proof (cases "Suc i = length vs")
  case True
  then have a: "Suc i mod length vs = 0" "mirror (length vs) i = i" by (simp_all add: mirror_def)
  have "cyc_edges (rev vs) ! i = (rev vs ! i, rev vs ! 0)"
    using i a by (simp add: nth_cyc_edges)
  also have "\<dots> = (vs ! 0, vs ! i)"
  proof -
    have "rev vs ! i = vs ! (length vs - Suc i)" using i by (rule rev_nth)
    moreover from i have "0 < length vs" by arith
    then have "rev vs ! 0 = vs ! (length vs - Suc 0)" by (rule rev_nth)
    moreover have "length vs - Suc i = 0" "length vs - Suc 0 = i" using True by arith+
    ultimately show ?thesis by simp
  qed
  also have "\<dots> = prod.swap (cyc_edges vs ! i)" using i a by (simp add: nth_cyc_edges)
  finally show ?thesis using a by simp
next
  case False
  with i have lt: "Suc i < length vs" by arith
  then have a: "Suc i mod length vs = Suc i" "mirror (length vs) i = length vs - 2 - i"
    using False by (simp_all add: mirror_def)
  have b: "length vs - 2 - i < length vs" "Suc (length vs - 2 - i) = length vs - Suc i"
    using lt by arith+
  have "cyc_edges (rev vs) ! i = (rev vs ! i, rev vs ! Suc i)"
    using i a by (simp add: nth_cyc_edges)
  also have "\<dots> = (vs ! (length vs - Suc i), vs ! (length vs - Suc (Suc i)))"
    using i lt by (simp add: rev_nth)
  also have "length vs - Suc (Suc i) = length vs - 2 - i" by arith
  also have "(vs ! (length vs - Suc i), vs ! (length vs - 2 - i))
      = prod.swap (cyc_edges vs ! (length vs - 2 - i))"
    using b lt by (simp add: nth_cyc_edges)
  finally show ?thesis using a by simp
qed

lemma mset_map_mirror: "mset (map (mirror n) [0..<n]) = mset [0..<n]"
proof (cases n)
  case 0
  then show ?thesis by simp
next
  case (Suc m)
  have "map (mirror n) [0..<m] = rev [0..<m]"
  proof (rule nth_equalityI)
    show "length (map (mirror n) [0..<m]) = length (rev [0..<m])" by simp
  next
    fix i assume "i < length (map (mirror n) [0..<m])"
    then have i: "i < m" by simp
    then have "mirror n i = m - Suc i" using Suc by (simp add: mirror_def)
    then show "map (mirror n) [0..<m] ! i = rev [0..<m] ! i"
      using i by (simp add: rev_nth)
  qed
  moreover have "mirror n m = m" using Suc by (simp add: mirror_def)
  ultimately have "map (mirror n) [0..<n] = rev [0..<m] @ [m]"
    using Suc by simp
  then have "mset (map (mirror n) [0..<n]) = mset (rev [0..<m] @ [m])" by simp
  also have "\<dots> = mset ([0..<m] @ [m])" by simp
  also have "[0..<m] @ [m] = [0..<n]" using Suc by simp
  finally show ?thesis .
qed

lemma mset_und_cyc_edges_rev:
  "mset (map und (cyc_edges (rev vs))) = mset (map und (cyc_edges vs))"
proof -
  let ?n = "length vs"
  let ?f = "\<lambda>i. und (cyc_edges vs ! i)"
  have "map und (cyc_edges (rev vs)) = map ?f (map (mirror ?n) [0..<?n])"
  proof (rule nth_equalityI)
    show "length (map und (cyc_edges (rev vs))) = length (map ?f (map (mirror ?n) [0..<?n]))"
      by simp
  next
    fix i assume "i < length (map und (cyc_edges (rev vs)))"
    then have i: "i < ?n" by simp
    then show "map und (cyc_edges (rev vs)) ! i = map ?f (map (mirror ?n) [0..<?n]) ! i"
      by (simp add: cyc_edges_rev)
  qed
  then have "mset (map und (cyc_edges (rev vs))) = image_mset ?f (mset (map (mirror ?n) [0..<?n]))"
    by (simp only: mset_map)
  also have "\<dots> = image_mset ?f (mset [0..<?n])" by (simp only: mset_map_mirror)
  also have "\<dots> = mset (map ?f [0..<?n])" by (simp only: mset_map)
  also have "map ?f [0..<?n] = map und (cyc_edges vs)"
    by (rule nth_equalityI) simp_all
  finally show ?thesis .
qed

lemma mset_rotate_list: "mset (rotate n xs) = mset xs"
proof (induction n)
  case 0
  then show ?case by simp
next
  case (Suc n)
  have "mset (rotate1 ys) = mset ys" for ys :: "'a list" by (cases ys) simp_all
  with Suc show ?case by simp
qed

lemma simple_cycle_align:
  assumes sc: "simple_cycle es"
  shows "\<exists>ws. cyc_inv ws 1 es"
proof -
  let ?n = "length es"
  from sc obtain vs where ne: "es \<noteq> []" and dist: "distinct vs" and len: "length vs = ?n"
    and eq: "mset (map und es) = mset (map und (cyc_edges vs))"
    unfolding simple_cycle_def by blast
  from ne have pos: "0 < ?n" by simp
  \<comment> \<open>first choose the direction of travel\<close>
  have "\<exists>us i. distinct us \<and> length us = ?n \<and> i < ?n \<and> es ! 0 = cyc_edges us ! i
          \<and> mset (map und es) = mset (map und (cyc_edges us))"
  proof -
    have "es ! 0 \<in> set es" using pos by simp
    then have "und (es ! 0) \<in> set (map und es)" by simp
    then have "und (es ! 0) \<in> set (map und (cyc_edges vs))" using eq by (metis set_mset_mset)
    then obtain e where e: "e \<in> set (cyc_edges vs)" "und (es ! 0) = und e" by auto
    then obtain i where i: "i < ?n" "cyc_edges vs ! i = e"
      unfolding in_set_conv_nth using len by auto
    obtain a b where ab: "es ! 0 = (a, b)" by (cases "es ! 0")
    obtain c d where cd: "e = (c, d)" by (cases e)
    from e(2)[unfolded ab cd und_eq_iff]
    consider "es ! 0 = e" | "es ! 0 = prod.swap e" using ab cd by auto
    then show ?thesis
    proof cases
      case 1
      with dist len i eq show ?thesis by blast
    next
      case 2
      let ?i = "mirror ?n i"
      have mi: "?i < ?n" using i(1) by (rule mirror_less)
      have "cyc_edges (rev vs) ! ?i = prod.swap (cyc_edges vs ! mirror ?n ?i)"
        using cyc_edges_rev[of ?i vs] mi len by simp
      also have "mirror ?n ?i = i" using i(1) by (rule mirror_mirror)
      finally have "es ! 0 = cyc_edges (rev vs) ! ?i" using 2 i(2) by simp
      moreover have "mset (map und es) = mset (map und (cyc_edges (rev vs)))"
        using eq by (simp only: mset_und_cyc_edges_rev)
      moreover have "distinct (rev vs)" "length (rev vs) = ?n" using dist len by simp_all
      ultimately show ?thesis using mi by blast
    qed
  qed
  then obtain us i where dist: "distinct us" and len: "length us = ?n" and i: "i < ?n"
    and e0: "es ! 0 = cyc_edges us ! i"
    and eq: "mset (map und es) = mset (map und (cyc_edges us))" by blast
  \<comment> \<open>then the starting point\<close>
  let ?ws = "rotate i us"
  have lw: "length ?ws = ?n" using len by simp
  have c0: "cyc_edges ?ws ! 0 = es ! 0"
    unfolding cyc_edges_rotate using i len pos e0 by (simp add: nth_rotate)
  then have first: "es ! 0 = (?ws ! 0, ?ws ! (Suc 0 mod length ?ws))"
    using pos lw by (simp add: nth_cyc_edges)
  have "mset (map und (cyc_edges ?ws)) = mset (map und (cyc_edges us))"
    unfolding cyc_edges_rotate rotate_map[symmetric] by (rule mset_rotate_list)
  with eq have eq': "mset (map und es) = mset (map und (cyc_edges ?ws))" by simp
  have d1: "es = es ! 0 # drop 1 es" using pos by (cases es) simp_all
  have "0 < length (cyc_edges ?ws)" using pos lw by simp
  from Cons_nth_drop_Suc[OF this]
  have d2: "cyc_edges ?ws = cyc_edges ?ws ! 0 # drop 1 (cyc_edges ?ws)" by simp
  from eq' have "mset (map und (es ! 0 # drop 1 es))
      = mset (map und (cyc_edges ?ws ! 0 # drop 1 (cyc_edges ?ws)))"
    using d1 d2 by simp
  then have rest: "mset (map und (drop 1 es)) = mset (map und (drop 1 (cyc_edges ?ws)))"
    using c0 by simp
  have "cyc_inv ?ws 1 es"
    unfolding cyc_inv_def using dist lw first rest by simp
  then show ?thesis ..
qed

section \<open>The result of a run\<close>

lemma stored_neg_line [simp]: "stored (neg_line l) = stored l"
  by (simp add: stored_def neg_line_def)

lemma init_state_ppi: "point_pair_ids (init_state xs) = map stored xs"
  by (simp add: init_state_def stored_def)

lemma orient_lines_Inr:
  "orient_loop [1..<length xs] (init_state xs) = Inr st \<Longrightarrow> orient_lines xs = Inr (reconstruct st)"
  by (simp add: orient_lines_def orient_lines_run_def)

lemma reconstruct_nth:
  assumes inv: "orient_inv xs (length xs) st" and i: "i < length xs"
  shows "reconstruct st ! i =
     (if oriented st ! i then xs ! (order st ! i) else neg_line (xs ! (order st ! i)))"
proof -
  from inv have "lines_arg st = xs" "length (order st) = length xs" "length (oriented st) = length xs"
    unfolding orient_inv_def by blast+
  with i show ?thesis by (simp add: reconstruct_def Let_def)
qed

lemma reconstruct_length:
  assumes inv: "orient_inv xs (length xs) st"
  shows "length (reconstruct st) = length xs"
proof -
  from inv have "length (oriented st) = length xs" unfolding orient_inv_def by blast
  then show ?thesis by (simp add: reconstruct_def Let_def)
qed

lemma order_in_range:
  assumes inv: "orient_inv xs j st" and i: "i < length xs"
  shows "order st ! i < length xs"
proof -
  from inv have ms: "mset (order st) = mset [0..<length xs]" and len: "length (order st) = length xs"
    unfolding orient_inv_def by blast+
  from i len have "order st ! i \<in> set (order st)" by simp
  also have "set (order st) = set [0..<length xs]" using ms by (rule mset_eq_setD)
  finally show ?thesis by simp
qed

lemma reconstruct_flipped_permutation:
  assumes inv: "orient_inv xs (length xs) st"
  shows "flipped_permutation xs (reconstruct st)"
proof -
  from inv have ms: "mset (order st) = mset [0..<length xs]"
    unfolding orient_inv_def by blast
  have "\<forall>i < length xs. reconstruct st ! i = xs ! (order st ! i)
          \<or> reconstruct st ! i = neg_line (xs ! (order st ! i))"
    by (simp add: reconstruct_nth[OF inv])
  with ms reconstruct_length[OF inv] show ?thesis
    unfolding flipped_permutation_def by blast
qed

lemma reconstruct_und_edges:
  assumes inv: "orient_inv xs (length xs) st"
  shows "mset (map und_edge (reconstruct st)) = mset (map und_edge xs)"
proof -
  let ?n = "length xs"
  from inv have ms: "mset (order st) = mset [0..<?n]" and len: "length (order st) = ?n"
    unfolding orient_inv_def by blast+
  have "map und_edge (reconstruct st) = map (\<lambda>k. und_edge (xs ! k)) (order st)"
  proof (rule nth_equalityI)
    show "length (map und_edge (reconstruct st)) = length (map (\<lambda>k. und_edge (xs ! k)) (order st))"
      using reconstruct_length[OF inv] len by simp
  next
    fix i assume "i < length (map und_edge (reconstruct st))"
    then have i: "i < ?n" using reconstruct_length[OF inv] by simp
    then show "map und_edge (reconstruct st) ! i = map (\<lambda>k. und_edge (xs ! k)) (order st) ! i"
      using reconstruct_length[OF inv] len
      by (simp add: reconstruct_nth[OF inv] und_edge_def)
  qed
  then have "mset (map und_edge (reconstruct st)) = image_mset (\<lambda>k. und_edge (xs ! k)) (mset (order st))"
    by (simp only: mset_map)
  also have "\<dots> = image_mset (\<lambda>k. und_edge (xs ! k)) (mset [0..<?n])" by (simp only: ms)
  also have "\<dots> = mset (map (\<lambda>k. und_edge (xs ! k)) [0..<?n])" by (simp only: mset_map)
  also have "map (\<lambda>k. und_edge (xs ! k)) [0..<?n] = map und_edge xs"
    by (rule nth_equalityI) simp_all
  finally show ?thesis .
qed

lemma reconstruct_effective:
  assumes inv: "orient_inv xs (length xs) st" and i: "i < length xs"
    and pos: "\<forall>l \<in> set xs. sign_pos l"
  shows "eff_tail (reconstruct st ! i) = fst (point_pair_ids st ! i)"
    and "eff_head (reconstruct st ! i) = snd (point_pair_ids st ! i)"
proof -
  let ?x = "xs ! (order st ! i)"
  from inv i have rel: "point_pair_ids st ! i = orient_pair (oriented st ! i) (stored ?x)"
    unfolding orient_inv_def by blast
  from order_in_range[OF inv i] pos have sp: "sign_pos ?x" by simp
  show "eff_tail (reconstruct st ! i) = fst (point_pair_ids st ! i)"
    using sp by (simp add: reconstruct_nth[OF inv i] rel orient_pair_def eff_tail_def stored_def neg_line_def)
  show "eff_head (reconstruct st ! i) = snd (point_pair_ids st ! i)"
    using sp by (simp add: reconstruct_nth[OF inv i] rel orient_pair_def eff_head_def stored_def neg_line_def)
qed

lemma simple_cycle_run:
  assumes sc: "simple_cycle (map stored xs)"
  shows "\<exists>st ws. orient_loop [1..<length xs] (init_state xs) = Inr st \<and>
           orient_inv xs (length xs) st \<and> cyc_inv ws (length xs) (point_pair_ids st)"
proof -
  from sc have ne: "xs \<noteq> []" unfolding simple_cycle_def by simp
  from simple_cycle_align[OF sc] obtain ws where c1: "cyc_inv ws 1 (map stored xs)" by blast
  then have lw: "length ws = length xs" unfolding cyc_inv_def by simp
  from c1 have c1': "cyc_inv ws 1 (point_pair_ids (init_state xs))" by (simp only: init_state_ppi)
  from ne lw have one: "1 \<le> length ws" by (cases xs) simp_all
  from cyc_loop[OF c1' _ one] obtain st where
    run: "orient_loop [1..<length ws] (init_state xs) = Inr st"
    and cN: "cyc_inv ws (length ws) (point_pair_ids st)" by auto
  from one lw have "1 \<le> length xs" by simp
  from orient_loop_inv[OF orient_inv_init _ this _ run[unfolded lw]]
  have "orient_inv xs (length xs) st" by simp
  with run cN lw show ?thesis by auto
qed

text \<open>
  Claim C1 (as amended). For every input of \<open>N \<ge> 1\<close> segments, all given in stored
  orientation (sign \<open>+1\<close>), whose endpoint ids form exactly one simple cycle,
  \<open>orient_lines\<close> returns a permutation of the input segments, each possibly
  sign-flipped, in which the effective head of every segment is the effective tail of
  the next one, cyclically; the multiset of undirected edges is that of the input.
\<close>

theorem orient_lines_closes_simple_cycle:
  assumes sc: "simple_cycle (map stored xs)" and pos: "\<forall>l \<in> set xs. sign_pos l"
  shows "\<exists>ys. orient_lines xs = Inr ys \<and> flipped_permutation xs ys \<and> closed_loop ys \<and>
           mset (map und_edge ys) = mset (map und_edge xs)"
proof -
  let ?n = "length xs"
  from simple_cycle_run[OF sc] obtain st ws where
    run: "orient_loop [1..<?n] (init_state xs) = Inr st"
    and inv: "orient_inv xs ?n st" and cyc: "cyc_inv ws ?n (point_pair_ids st)" by blast
  let ?ys = "reconstruct st"
  from cyc have lw: "length ws = length (point_pair_ids st)"
    and edges: "\<forall>i < ?n. point_pair_ids st ! i = (ws ! i, ws ! (Suc i mod length ws))"
    unfolding cyc_inv_def by blast+
  from inv have lp: "length (point_pair_ids st) = ?n" unfolding orient_inv_def by blast
  have ly: "length ?ys = ?n" by (rule reconstruct_length[OF inv])
  have "eff_head (?ys ! i) = eff_tail (?ys ! (Suc i mod ?n))" if i: "i < ?n" for i
  proof -
    from i have "0 < ?n" by arith
    then have s: "Suc i mod ?n < ?n" by (rule mod_less_divisor)
    have "eff_head (?ys ! i) = snd (point_pair_ids st ! i)"
      by (rule reconstruct_effective(2)[OF inv i pos])
    also have "\<dots> = ws ! (Suc i mod ?n)" using edges i lw lp by simp
    also have "\<dots> = fst (point_pair_ids st ! (Suc i mod ?n))" using edges s by simp
    also have "\<dots> = eff_tail (?ys ! (Suc i mod ?n))"
      by (rule reconstruct_effective(1)[OF inv s pos, symmetric])
    finally show ?thesis .
  qed
  then have "closed_loop ?ys" unfolding closed_loop_def ly by blast
  with orient_lines_Inr[OF run] reconstruct_flipped_permutation[OF inv] reconstruct_und_edges[OF inv]
  show ?thesis by blast
qed

lemma simple_cycle_square:
  "simple_cycle (map stored [new_line 2 3, new_line 0 1, new_line 3 0, new_line 1 2])"
  unfolding simple_cycle_def
  by (intro conjI exI[of _ "[0, 1, 2, 3]"]) (simp_all add: cyc_edges_def und_def stored_def new_line_def)

theorem orient_lines_closes_simple_cycle_witness:
  "simple_cycle (map stored [new_line 2 3, new_line 0 1, new_line 3 0, new_line 1 2]) \<and>
   list_all sign_pos [new_line 2 3, new_line 0 1, new_line 3 0, new_line 1 2] \<and>
   (\<exists>ys. orient_lines [new_line 2 3, new_line 0 1, new_line 3 0, new_line 1 2] = Inr ys \<and>
      flipped_permutation [new_line 2 3, new_line 0 1, new_line 3 0, new_line 1 2] ys \<and>
      closed_loop ys \<and>
      mset (map und_edge ys)
        = mset (map und_edge [new_line 2 3, new_line 0 1, new_line 3 0, new_line 1 2]))"
proof -
  let ?xs = "[new_line 2 3, new_line 0 1, new_line 3 0, new_line 1 2]"
  have sc: "simple_cycle (map stored ?xs)" by (rule simple_cycle_square)
  have pos: "\<forall>l \<in> set ?xs. sign_pos l" by (simp add: new_line_def)
  from orient_lines_closes_simple_cycle[OF sc pos] sc show ?thesis by (simp add: new_line_def)
qed

theorem orient_lines_signed_input_counterexample:
  "simple_cycle (map stored [new_line 0 1, neg_line (new_line 1 0)]) \<and>
   orient_lines [new_line 0 1, neg_line (new_line 1 0)]
     = Inr [new_line 0 1, neg_line (new_line 1 0)] \<and>
   \<not> closed_loop [new_line 0 1, neg_line (new_line 1 0)]"
proof (intro conjI)
  show "simple_cycle (map stored [new_line 0 1, neg_line (new_line 1 0)])"
    unfolding simple_cycle_def
    by (intro conjI exI[of _ "[0, 1]"])
      (simp_all add: cyc_edges_def und_def stored_def new_line_def neg_line_def)
  show "orient_lines [new_line 0 1, neg_line (new_line 1 0)]
     = Inr [new_line 0 1, neg_line (new_line 1 0)]"
    by code_simp
  show "\<not> closed_loop [new_line 0 1, neg_line (new_line 1 0)]"
  proof
    assume "closed_loop [new_line 0 1, neg_line (new_line 1 0)]"
    from this[unfolded closed_loop_def, rule_format, of 0] show False
      by (simp add: eff_head_def eff_tail_def new_line_def neg_line_def)
  qed
qed

section \<open>The start and the tie-break\<close>

lemma orient_step_selects_lowest:
  assumes "orient_step j st = Inr st'"
  shows "\<exists>k. step_selects_lowest j st k st'"
proof (cases j st rule: orient_step_cases)
  case (direct k)
  with assms have "st' = reorder j k st" by simp
  with direct(1-4) have "step_selects_lowest j st k st'"
    unfolding step_selects_lowest_def lowest_match_def Let_def by blast
  then show ?thesis ..
next
  case (flipped k)
  with assms have "st' = reorder j k (flip_pool j st)" by (simp add: flip_pool_def)
  with flipped(1-5) have "step_selects_lowest j st k st'"
    unfolding step_selects_lowest_def lowest_match_def no_match_def Let_def by blast
  then show ?thesis ..
next
  case stuck
  with assms show ?thesis by simp
qed

lemma step_selects_lowest_order:
  assumes sel: "step_selects_lowest j st k st'"
    and j: "j < length (order st)" and len: "length (point_pair_ids st) = length (order st)"
  shows "order st' ! j = order st ! k"
proof -
  from sel have k: "j \<le> k" "k < length (point_pair_ids st)"
    and o: "order st' = swap_rows (order st) j k"
    unfolding step_selects_lowest_def lowest_match_def Let_def
    by (auto simp: reorder_def flip_pool_def)
  from k(2) len have "k < length (order st)" by simp
  with j show ?thesis unfolding o by (simp add: nth_swap_rows)
qed

text \<open>A pass leaves the positions below it as they are.\<close>

lemma orient_step_order_below:
  assumes step: "orient_step j st = Inr st'" and i: "i < j"
  shows "order st' ! i = order st ! i"
proof -
  from orient_step_selects_lowest[OF step] obtain k where
    sel: "step_selects_lowest j st k st'" ..
  then have k: "j \<le> k" and o: "order st' = swap_rows (order st) j k"
    unfolding step_selects_lowest_def lowest_match_def Let_def
    by (auto simp: reorder_def flip_pool_def)
  from i k show ?thesis unfolding o by (simp add: swap_rows_def)
qed

lemma orient_loop_order_below:
  "orient_loop js st = Inr st' \<Longrightarrow> \<forall>j \<in> set js. i < j \<Longrightarrow> order st' ! i = order st ! i"
proof (induction js arbitrary: st)
  case Nil
  then show ?case by simp
next
  case (Cons j js)
  from Cons.prems(1) obtain st1 where s1: "orient_step j st = Inr st1"
    and rest: "orient_loop js st1 = Inr st'"
    by (auto split: sum.splits)
  from Cons.prems(2) have "i < j" and "\<forall>j \<in> set js. i < j" by simp_all
  with Cons.IH[OF rest] orient_step_order_below[OF s1] show ?case by simp
qed

lemma simple_cycle_first_kept:
  assumes sc: "simple_cycle (map stored xs)"
  shows "\<exists>ys. orient_lines xs = Inr ys \<and> ys ! 0 = xs ! 0"
proof -
  from sc have ne: "xs \<noteq> []" unfolding simple_cycle_def by simp
  from simple_cycle_run[OF sc] obtain st where
    run: "orient_loop [1..<length xs] (init_state xs) = Inr st"
    and inv: "orient_inv xs (length xs) st" by blast
  from ne have pos: "0 < length xs" by simp
  with inv have "order st ! 0 = 0" "oriented st ! 0" unfolding orient_inv_def by blast+
  then have "reconstruct st ! 0 = xs ! 0" by (simp add: reconstruct_nth[OF inv pos])
  with orient_lines_Inr[OF run] show ?thesis by blast
qed

text \<open>A call that returns has run every pass, and its result is built from the last store.\<close>

lemma orient_lines_returns:
  assumes "orient_lines xs = Inr ys"
  obtains fin where "orient_loop [1..<length xs] (init_state xs) = Inr fin"
    and "orient_inv xs (length xs) fin" and "ys = reconstruct fin"
proof (cases "orient_loop [1..<length xs] (init_state xs)")
  case (Inl a)
  with assms show ?thesis
    by (cases a) (simp add: orient_lines_def orient_lines_run_def)
next
  case (Inr fin)
  with assms have ys: "ys = reconstruct fin" by (simp add: orient_lines_def orient_lines_run_def)
  show ?thesis
  proof (cases "xs = []")
    case True
    with Inr have "fin = init_state xs" by simp
    with orient_inv_init[of xs] True have "orient_inv xs (length xs) fin"
      by (simp add: orient_inv_def)
    with Inr ys that show ?thesis by blast
  next
    case False
    then have "1 \<le> length xs" by (cases xs) simp_all
    from orient_loop_inv[OF orient_inv_init _ this _ Inr]
    have "orient_inv xs (length xs) fin" by simp
    with Inr ys that show ?thesis by blast
  qed
qed

lemma orient_lines_first:
  assumes "orient_lines xs = Inr ys"
  shows "ys ! 0 = xs ! 0"
proof (cases "xs = []")
  case True
  with assms show ?thesis
    by (simp add: orient_lines_def orient_lines_run_def init_state_def reconstruct_def)
next
  case False
  then have pos: "0 < length xs" by simp
  from orient_lines_returns[OF assms] obtain fin where
    inv: "orient_inv xs (length xs) fin" and ys: "ys = reconstruct fin" by blast
  from inv pos have "order fin ! 0 = 0" "oriented fin ! 0" unfolding orient_inv_def by blast+
  then show ?thesis unfolding ys by (simp add: reconstruct_nth[OF inv pos])
qed

lemma orient_lines_pass:
  assumes ret: "orient_lines xs = Inr ys" and j: "1 \<le> j" and jN: "j < length xs"
  shows "\<exists>st k st'. orient_loop [1..<j] (init_state xs) = Inr st \<and>
           step_selects_lowest j st k st' \<and>
           orient_loop [1..<Suc j] (init_state xs) = Inr st' \<and>
           (ys ! j = xs ! (order st ! k) \<or> ys ! j = neg_line (xs ! (order st ! k)))"
proof -
  from orient_lines_returns[OF ret] obtain fin where
    run: "orient_loop [1..<length xs] (init_state xs) = Inr fin"
    and inv: "orient_inv xs (length xs) fin" and ys: "ys = reconstruct fin" by blast
  have "[1..<length xs] = [1..<j] @ [j..<length xs]"
    using j jN upt_add_eq_append[of 1 j "length xs - j"] by simp
  also have "[j..<length xs] = j # [Suc j..<length xs]" using jN by (simp add: upt_conv_Cons)
  finally have u: "[1..<length xs] = [1..<j] @ j # [Suc j..<length xs]" .
  from run obtain st where pre: "orient_loop [1..<j] (init_state xs) = Inr st"
    and r1: "orient_loop (j # [Suc j..<length xs]) st = Inr fin"
    unfolding u orient_loop_append by (auto split: sum.splits)
  from r1 obtain st' where step: "orient_step j st = Inr st'"
    and rest: "orient_loop [Suc j..<length xs] st' = Inr fin"
    by (auto split: sum.splits)
  from j have "[1..<Suc j] = [1..<j] @ [j]" by simp
  then have post: "orient_loop [1..<Suc j] (init_state xs) = Inr st'"
    using pre step by (simp add: orient_loop_append)
  from jN have "j \<le> length xs" by simp
  from orient_loop_inv[OF orient_inv_init _ j this pre]
  have invj: "orient_inv xs j st" by simp
  then have len: "length (point_pair_ids st) = length xs" "length (order st) = length xs"
    unfolding orient_inv_def by blast+
  from orient_step_selects_lowest[OF step] obtain k where
    sel: "step_selects_lowest j st k st'" ..
  from len jN have "order st' ! j = order st ! k"
    by (intro step_selects_lowest_order[OF sel]) simp_all
  moreover have "order fin ! j = order st' ! j"
    by (rule orient_loop_order_below[OF rest]) simp
  ultimately have "order fin ! j = order st ! k" by simp
  with reconstruct_nth[OF inv jN]
  have "ys ! j = xs ! (order st ! k) \<or> ys ! j = neg_line (xs ! (order st ! k))"
    unfolding ys by (cases "oriented fin ! j") simp_all
  with pre sel post show ?thesis by blast
qed

text \<open>
  Claim C8 (as amended). The function is deterministic with a fixed start. A valid input
  makes the call return, and the first segment of a result is the first input segment as
  it was given, with the sign it came with. Every chaining step \<open>j\<close> of a call that
  returns takes, from the store the passes before it have left, the lowest position
  \<open>k\<close> in \<open>j..N-1\<close> whose stored tail is the required id, or, when there is none,
  the lowest one whose stored head is; the segment found there becomes segment \<open>j\<close>
  of the result.
\<close>

theorem orient_lines_first_and_lowest:
  "(simple_cycle (map stored xs) \<longrightarrow> (\<exists>zs. orient_lines xs = Inr zs)) \<and>
   (orient_lines xs = Inr ys \<longrightarrow>
      ys ! 0 = xs ! 0 \<and> sign_pos (ys ! 0) = sign_pos (xs ! 0)) \<and>
   (orient_lines xs = Inr ys \<and> 1 \<le> j \<and> j < length xs \<longrightarrow>
      (\<exists>st k st'. orient_loop [1..<j] (init_state xs) = Inr st \<and>
         step_selects_lowest j st k st' \<and>
         orient_loop [1..<Suc j] (init_state xs) = Inr st' \<and>
         (ys ! j = xs ! (order st ! k) \<or> ys ! j = neg_line (xs ! (order st ! k)))))"
proof (intro conjI impI)
  show "\<exists>zs. orient_lines xs = Inr zs" if "simple_cycle (map stored xs)"
    using simple_cycle_first_kept[OF that] by blast
  show "ys ! 0 = xs ! 0" if "orient_lines xs = Inr ys"
    using that by (rule orient_lines_first)
  show "sign_pos (ys ! 0) = sign_pos (xs ! 0)" if "orient_lines xs = Inr ys"
    using orient_lines_first[OF that] by simp
  show "\<exists>st k st'. orient_loop [1..<j] (init_state xs) = Inr st \<and>
         step_selects_lowest j st k st' \<and>
         orient_loop [1..<Suc j] (init_state xs) = Inr st' \<and>
         (ys ! j = xs ! (order st ! k) \<or> ys ! j = neg_line (xs ! (order st ! k)))"
    if "orient_lines xs = Inr ys \<and> 1 \<le> j \<and> j < length xs"
    using that orient_lines_pass by blast
qed

theorem orient_lines_first_and_lowest_witness:
  "simple_cycle (map stored [new_line 2 3, new_line 0 1, new_line 3 0, new_line 1 2]) \<and>
   (\<exists>zs. orient_lines [new_line 2 3, new_line 0 1, new_line 3 0, new_line 1 2] = Inr zs) \<and>
   orient_lines figure_eight
     = Inr [new_line 0 1, new_line 1 2, new_line 2 1, new_line 1 3, new_line 3 1] \<and>
   [new_line 0 1, new_line 1 2, new_line 2 1, new_line 1 3, new_line 3 1] ! 0
     = figure_eight ! 0 \<and>
   sign_pos ([new_line 0 1, new_line 1 2, new_line 2 1, new_line 1 3, new_line 3 1] ! 0) \<and>
   fst (point_pair_ids (init_state figure_eight) ! 1) = snd (point_pair_ids (init_state figure_eight) ! 0) \<and>
   fst (point_pair_ids (init_state figure_eight) ! 2) = snd (point_pair_ids (init_state figure_eight) ! 0) \<and>
   (\<exists>st'. step_selects_lowest 1 (init_state figure_eight) 1 st' \<and>
      orient_loop [1..<2] (init_state figure_eight) = Inr st') \<and>
   (\<exists>st k st'. orient_loop [1..<2] (init_state figure_eight) = Inr st \<and>
      step_selects_lowest 2 st k st' \<and>
      orient_loop [1..<3] (init_state figure_eight) = Inr st' \<and>
      ([new_line 0 1, new_line 1 2, new_line 2 1, new_line 1 3, new_line 3 1] ! 2
         = figure_eight ! (order st ! k)))"
proof -
  let ?sq = "[new_line 2 3, new_line 0 1, new_line 3 0, new_line 1 2]"
  let ?ys = "[new_line 0 1, new_line 1 2, new_line 2 1, new_line 1 3, new_line 3 1]"
  let ?P = "[(0, 1), (1, 2), (1, 3), (2, 1), (3, 1)] :: (int \<times> int) list"
  have sq: "\<exists>zs. orient_lines ?sq = Inr zs"
    using orient_lines_first_and_lowest[of ?sq] simple_cycle_square by blast
  have ret: "orient_lines figure_eight = Inr ?ys" unfolding figure_eight_def by code_simp
  from orient_lines_first_and_lowest[of figure_eight ?ys] ret
  have first: "?ys ! 0 = figure_eight ! 0" "sign_pos (?ys ! 0) = sign_pos (figure_eight ! 0)"
    by blast+
  have pos: "sign_pos (figure_eight ! 0)" by (simp add: figure_eight_def new_line_def)
  have ppi: "point_pair_ids (init_state figure_eight) = ?P"
    by (simp add: init_state_def figure_eight_def new_line_def)
  have len: "length figure_eight = 5" by (simp add: figure_eight_def)
  from orient_lines_first_and_lowest[of figure_eight ?ys 1] ret len
  obtain st k st' where pre: "orient_loop [1..<1] (init_state figure_eight) = Inr st"
    and sel: "step_selects_lowest 1 st k st'"
    and post: "orient_loop [1..<Suc 1] (init_state figure_eight) = Inr st'"
    by auto
  from pre have st: "st = init_state figure_eight" by simp
  from sel have "lowest_match fst 1 ?P 1 k \<or> no_match fst 1 ?P 1"
    unfolding st step_selects_lowest_def Let_def ppi by auto
  then have k: "k = 1"
  proof
    assume "lowest_match fst 1 ?P 1 k"
    then have k1: "1 \<le> k" and a: "\<forall>i. 1 \<le> i \<and> i < k \<longrightarrow> fst (?P ! i) \<noteq> 1"
      unfolding lowest_match_def by blast+
    from a[rule_format, of 1] have "\<not> 1 < k" by auto
    with k1 show ?thesis by simp
  next
    assume "no_match fst 1 ?P 1"
    from this[unfolded no_match_def, rule_format, of 1] show ?thesis by simp
  qed
  from sel post have one: "\<exists>st'. step_selects_lowest 1 (init_state figure_eight) 1 st' \<and>
      orient_loop [1..<2] (init_state figure_eight) = Inr st'"
    unfolding st k by (auto simp: numeral_2_eq_2)
  from orient_lines_first_and_lowest[of figure_eight ?ys 2] ret len
  obtain st2 k2 st2' where pre2: "orient_loop [1..<2] (init_state figure_eight) = Inr st2"
    and sel2: "step_selects_lowest 2 st2 k2 st2'"
    and post2: "orient_loop [1..<Suc 2] (init_state figure_eight) = Inr st2'"
    and out2: "?ys ! 2 = figure_eight ! (order st2 ! k2) \<or>
       ?ys ! 2 = neg_line (figure_eight ! (order st2 ! k2))"
    by auto
  have l: "order st2 ! k2 < length figure_eight"
  proof -
    have "orient_inv figure_eight 2 st2"
      using orient_loop_inv[OF orient_inv_init _ _ _ pre2] len by simp
    moreover from sel2 have "k2 < length (point_pair_ids st2)"
      unfolding step_selects_lowest_def lowest_match_def Let_def by auto
    ultimately show ?thesis using order_in_range[of figure_eight 2 st2 k2]
      unfolding orient_inv_def by simp
  qed
  have "?ys ! 2 \<noteq> neg_line (figure_eight ! i)" if "i < 5" for i
  proof -
    from that have "i = 0 \<or> i = 1 \<or> i = 2 \<or> i = 3 \<or> i = 4" by arith
    then show ?thesis by (auto simp: figure_eight_def new_line_def neg_line_def)
  qed
  with out2 l len have out2': "?ys ! 2 = figure_eight ! (order st2 ! k2)" by auto
  have "Suc 2 = 3" by simp
  with pre2 sel2 post2 out2'
  have two: "\<exists>st k st'. orient_loop [1..<2] (init_state figure_eight) = Inr st \<and>
      step_selects_lowest 2 st k st' \<and>
      orient_loop [1..<3] (init_state figure_eight) = Inr st' \<and>
      (?ys ! 2 = figure_eight ! (order st ! k))"
    by metis
  have m: "fst (point_pair_ids (init_state figure_eight) ! 1) = snd (point_pair_ids (init_state figure_eight) ! 0)"
    "fst (point_pair_ids (init_state figure_eight) ! 2) = snd (point_pair_ids (init_state figure_eight) ! 0)"
    unfolding ppi by simp_all
  from simple_cycle_square sq ret first pos m one two show ?thesis by simp
qed

theorem orient_lines_first_sign_counterexample:
  "simple_cycle (map stored [neg_line (new_line 0 1), new_line 1 0]) \<and>
   orient_lines [neg_line (new_line 0 1), new_line 1 0]
     = Inr [neg_line (new_line 0 1), new_line 1 0] \<and>
   [neg_line (new_line 0 1), new_line 1 0] ! 0 = neg_line (new_line 0 1) \<and>
   \<not> sign_pos (neg_line (new_line 0 1))"
proof (intro conjI)
  show "simple_cycle (map stored [neg_line (new_line 0 1), new_line 1 0])"
    unfolding simple_cycle_def
    by (intro conjI exI[of _ "[0, 1]"])
      (simp_all add: cyc_edges_def und_def stored_def new_line_def neg_line_def)
  show "orient_lines [neg_line (new_line 0 1), new_line 1 0]
     = Inr [neg_line (new_line 0 1), new_line 1 0]"
    by code_simp
  show "[neg_line (new_line 0 1), new_line 1 0] ! 0 = neg_line (new_line 0 1)" by simp
  show "\<not> sign_pos (neg_line (new_line 0 1))" by (simp add: neg_line_def new_line_def)
qed

section \<open>The argument is only read\<close>

lemma orient_step_lines_arg:
  "(orient_step j st = Inr st' \<longrightarrow> lines_arg st' = lines_arg st) \<and>
   (orient_step j st = Inl (e, st') \<longrightarrow> lines_arg st' = lines_arg st)"
  by (cases j st rule: orient_step_cases) (auto simp: reorder_def)

lemma orient_loop_lines_arg:
  "(orient_loop js st = Inr st' \<longrightarrow> lines_arg st' = lines_arg st) \<and>
   (orient_loop js st = Inl (e, st') \<longrightarrow> lines_arg st' = lines_arg st)"
proof (induction js arbitrary: st)
  case Nil
  show ?case by simp
next
  case (Cons j js)
  show ?case
  proof (cases "orient_step j st")
    case (Inl a)
    then show ?thesis using orient_step_lines_arg[of j st st' e] by auto
  next
    case (Inr st1)
    with orient_step_lines_arg[of j st st1 e] have "lines_arg st1 = lines_arg st" by simp
    with Cons.IH[of st1] Inr show ?thesis by simp
  qed
qed

text \<open>
  Claim C10. A call never changes its argument: whether it returns or raises partway,
  the caller's list holds the same segments in the same order afterwards, each with its
  stored pair of point ids. Only the arrays built inside the call are reordered and
  flipped, and the result is a new list.
\<close>

theorem orient_lines_leaves_input_unchanged:
  "lines_arg (fst (orient_lines_run xs)) = xs"
proof (cases "orient_loop [1..<length xs] (init_state xs)")
  case (Inl a)
  obtain e st where a: "a = (e, st)" by (cases a)
  with Inl orient_loop_lines_arg[of "[1..<length xs]" "init_state xs" st e]
  have "lines_arg st = xs" by (simp add: init_state_def)
  with Inl a show ?thesis by (simp add: orient_lines_run_def)
next
  case (Inr st)
  with orient_loop_lines_arg[of "[1..<length xs]" "init_state xs" st]
  have "lines_arg st = xs" by (simp add: init_state_def)
  with Inr show ?thesis by (simp add: orient_lines_run_def)
qed

theorem orient_lines_leaves_input_unchanged_witness:
  "snd (orient_lines_run [new_line 0 1, new_line 1 2, new_line 1 3]) = Inl IndexError \<and>
   lines_arg (fst (orient_lines_run [new_line 0 1, new_line 1 2, new_line 1 3]))
     = [new_line 0 1, new_line 1 2, new_line 1 3]"
proof -
  have "orient_lines [new_line 0 1, new_line 1 2, new_line 1 3] = Inl IndexError"
    by code_simp
  then have "snd (orient_lines_run [new_line 0 1, new_line 1 2, new_line 1 3]) = Inl IndexError"
    by (simp add: orient_lines_def)
  with orient_lines_leaves_input_unchanged[of "[new_line 0 1, new_line 1 2, new_line 1 3]"]
  show ?thesis by simp
qed

section \<open>Failing runs\<close>

lemma orient_step_no_match:
  assumes nf: "no_match fst j (point_pair_ids st) (snd (point_pair_ids st ! (j - 1)))"
    and ns: "no_match snd j (point_pair_ids st) (snd (point_pair_ids st ! (j - 1)))"
  shows "orient_step j st = Inl (IndexError, flip_pool j st)"
proof (cases j st rule: orient_step_cases)
  case (direct k)
  with nf show ?thesis unfolding no_match_def by blast
next
  case (flipped k)
  with ns show ?thesis unfolding no_match_def by blast
next
  case stuck
  then show ?thesis by (simp add: flip_pool_def)
qed

lemma orient_step_error: "orient_step j st = Inl (e, st') \<Longrightarrow> e = IndexError"
  by (cases j st rule: orient_step_cases) auto

lemma orient_loop_error: "orient_loop js st = Inl (e, st') \<Longrightarrow> e = IndexError"
proof (induction js arbitrary: st)
  case Nil
  then show ?case by simp
next
  case (Cons j js)
  show ?case
  proof (cases "orient_step j st")
    case (Inl a)
    with Cons.prems have "orient_step j st = Inl (e, st')" by simp
    then show ?thesis by (rule orient_step_error)
  next
    case (Inr st1)
    with Cons.prems have "orient_loop js st1 = Inl (e, st')" by simp
    then show ?thesis by (rule Cons.IH)
  qed
qed

text \<open>No other error is ever raised.\<close>

lemma orient_lines_error: "orient_lines xs = Inl e \<Longrightarrow> e = IndexError"
proof -
  assume a: "orient_lines xs = Inl e"
  show ?thesis
  proof (cases "orient_loop [1..<length xs] (init_state xs)")
    case (Inl b)
    obtain e' st where b: "b = (e', st)" by (cases b)
    with Inl a have "e' = e" by (simp add: orient_lines_def orient_lines_run_def)
    with Inl b orient_loop_error show ?thesis by blast
  next
    case (Inr st)
    with a show ?thesis by (simp add: orient_lines_def orient_lines_run_def)
  qed
qed

text \<open>
  Claim C2 (as amended). When the chaining reaches a step \<open>j\<close> at which no unplaced
  segment has the required id as its stored tail or as its stored head, the call fails at
  that step, after flipping the pool, and returns no loop. The failure is numpy's
  \<open>IndexError\<close> from reading \<open>wh[0]\<close> of the empty match array.
\<close>

theorem orient_lines_no_candidate_fails:
  assumes run: "orient_loop [1..<j] (init_state xs) = Inr st"
    and j: "1 \<le> j" and jN: "j < length xs"
    and nf: "no_match fst j (point_pair_ids st) (snd (point_pair_ids st ! (j - 1)))"
    and ns: "no_match snd j (point_pair_ids st) (snd (point_pair_ids st ! (j - 1)))"
  shows "orient_lines_run xs = (flip_pool j st, Inl IndexError) \<and>
         orient_lines xs = Inl IndexError"
proof -
  have "[1..<length xs] = [1..<j] @ [j..<length xs]"
    using j jN upt_add_eq_append[of 1 j "length xs - j"] by simp
  also have "[j..<length xs] = j # [Suc j..<length xs]" using jN by (simp add: upt_conv_Cons)
  finally have u: "[1..<length xs] = [1..<j] @ j # [Suc j..<length xs]" .
  have "orient_loop [1..<length xs] (init_state xs) = Inl (IndexError, flip_pool j st)"
    unfolding u orient_loop_append using run orient_step_no_match[OF nf ns] by simp
  then have r: "orient_lines_run xs = (flip_pool j st, Inl IndexError)"
    by (simp add: orient_lines_run_def)
  then have "orient_lines xs = Inl IndexError" by (simp add: orient_lines_def)
  with r show ?thesis by simp
qed

theorem orient_lines_no_candidate_fails_witness:
  "orient_loop [1..<2] (init_state [new_line 0 1, new_line 1 2, new_line 1 3])
     = Inr (reorder 1 1 (init_state [new_line 0 1, new_line 1 2, new_line 1 3])) \<and>
   no_match fst 2 [(0, 1), (1, 2), (1, 3)] 2 \<and>
   no_match snd 2 [(0, 1), (1, 2), (1, 3)] 2 \<and>
   orient_lines_run [new_line 0 1, new_line 1 2, new_line 1 3]
     = (flip_pool 2 (reorder 1 1 (init_state [new_line 0 1, new_line 1 2, new_line 1 3])),
        Inl IndexError) \<and>
   orient_lines [new_line 0 1, new_line 1 2, new_line 1 3] = Inl IndexError"
proof -
  let ?xs = "[new_line 0 1, new_line 1 2, new_line 1 3]"
  let ?st = "reorder 1 1 (init_state ?xs)"
  have run: "orient_loop [1..<2] (init_state ?xs) = Inr ?st" by code_simp
  have p: "point_pair_ids ?st = [(0, 1), (1, 2), (1, 3)]"
    by (simp add: reorder_def init_state_def new_line_def swap_rows_def)
  have nm: "no_match f 2 [(0, 1), (1, 2), (1, 3)] 2" if "f (1, 3) \<noteq> (2::int)" for f
    unfolding no_match_def
  proof (intro allI impI)
    fix i :: nat assume "2 \<le> i \<and> i < length [(0::int, 1::int), (1, 2), (1, 3)]"
    then have "i = 2" by simp
    with that show "f ([(0, 1), (1, 2), (1, 3)] ! i) \<noteq> 2" by simp
  qed
  have nf: "no_match fst 2 [(0, 1), (1, 2), (1, 3)] 2" by (rule nm) simp
  have ns: "no_match snd 2 [(0, 1), (1, 2), (1, 3)] 2" by (rule nm) simp
  have o: "snd (point_pair_ids ?st ! (2 - 1)) = 2" unfolding p by simp
  from orient_lines_no_candidate_fails[of 2 ?xs ?st, OF run] nf ns run
  show ?thesis unfolding o p by simp
qed

theorem orient_lines_error_type_counterexample:
  "orient_lines [new_line 0 1, new_line 1 2, new_line 1 3] = Inl IndexError \<and>
   orient_lines [new_line 0 1, new_line 1 2, new_line 1 3] \<noteq> Inl MalformedLoopError"
proof -
  have "orient_lines [new_line 0 1, new_line 1 2, new_line 1 3] = Inl IndexError"
    by code_simp
  then show ?thesis by simp
qed

text \<open>
  A violated precondition does not always lead to a step without candidate: here point
  \<open>1\<close> has degree 3 and point \<open>0\<close> degree 1, every step finds a match, and the chain
  that comes back is not closed.
\<close>

lemma orient_lines_degree_three_returns:
  "orient_lines [new_line 0 1, new_line 1 2, new_line 2 1]
     = Inr [new_line 0 1, new_line 1 2, new_line 2 1] \<and>
   \<not> closed_loop [new_line 0 1, new_line 1 2, new_line 2 1]"
proof
  show "orient_lines [new_line 0 1, new_line 1 2, new_line 2 1]
     = Inr [new_line 0 1, new_line 1 2, new_line 2 1]" by code_simp
  show "\<not> closed_loop [new_line 0 1, new_line 1 2, new_line 2 1]"
  proof
    assume "closed_loop [new_line 0 1, new_line 1 2, new_line 2 1]"
    from this[unfolded closed_loop_def, rule_format, of 2] show False
      by (simp add: eff_head_def eff_tail_def new_line_def)
  qed
qed

section \<open>Simple cycles and degrees\<close>

lemma incidence_und [simp]: "incidence v (und e) = incidence v e"
  by (cases e) (auto simp: incidence_def und_def min_def max_def)

lemma degree_sum: "degree es v = sum_list (map (incidence v) es)"
  by (induction es) (simp_all add: degree_def incidence_def)

lemma degree_und_cong:
  assumes "mset (map und es) = mset (map und es')"
  shows "degree es v = degree es' v"
proof -
  have "degree xs v = sum_mset (image_mset (incidence v) (mset (map und xs)))" for xs
  proof -
    have "map (incidence v) (map und xs) = map (incidence v) xs" by simp
    then have "sum_list (map (incidence v) xs) = sum_list (map (incidence v) (map und xs))"
      by (simp only:)
    also have "\<dots> = sum_mset (mset (map (incidence v) (map und xs)))"
      by (simp only: sum_mset_sum_list)
    finally show ?thesis unfolding degree_sum by (simp only: mset_map)
  qed
  then show ?thesis using assms by simp
qed

lemma distinct_count:
  "distinct xs \<Longrightarrow> length (filter (\<lambda>x. x = v) xs) = (if v \<in> set xs then 1 else 0)"
  by (induction xs) auto

lemma map_fst_cyc_edges: "map fst (cyc_edges vs) = vs"
  by (rule nth_equalityI) (simp_all add: nth_cyc_edges)

lemma map_snd_cyc_edges: "map snd (cyc_edges vs) = rotate1 vs"
  by (rule nth_equalityI) (simp_all add: nth_cyc_edges nth_rotate1)

lemma degree_cyc_edges:
  assumes "distinct vs"
  shows "degree (cyc_edges vs) v = (if v \<in> set vs then 2 else 0)"
proof -
  have f: "length (filter (\<lambda>e. fst e = v) (cyc_edges vs)) = length (filter (\<lambda>x. x = v) vs)"
    using length_filter_map[of "\<lambda>x. x = v" fst "cyc_edges vs"]
    by (simp add: map_fst_cyc_edges comp_def)
  have s: "length (filter (\<lambda>e. snd e = v) (cyc_edges vs)) = length (filter (\<lambda>x. x = v) (rotate1 vs))"
    using length_filter_map[of "\<lambda>x. x = v" snd "cyc_edges vs"]
    by (simp add: map_snd_cyc_edges comp_def)
  have "distinct (rotate1 vs)" "set (rotate1 vs) = set vs" using assms by simp_all
  then show ?thesis
    unfolding degree_def f s using assms by (simp add: distinct_count)
qed

lemma degree_pos_iff: "0 < degree es v \<longleftrightarrow> v \<in> fst ` set es \<union> snd ` set es"
proof -
  have "0 < degree es v \<longleftrightarrow> (\<exists>e \<in> set es. fst e = v) \<or> (\<exists>e \<in> set es. snd e = v)"
    unfolding degree_def by (simp add: filter_empty_conv)
  also have "\<dots> \<longleftrightarrow> v \<in> fst ` set es \<union> snd ` set es" by force
  finally show ?thesis .
qed

text \<open>
  A set of segments that forms one simple cycle in the sense above gives every point
  id it mentions degree exactly 2.
\<close>

lemma simple_cycle_degree:
  assumes "simple_cycle es"
  shows "degree es v = (if v \<in> fst ` set es \<union> snd ` set es then 2 else 0)"
proof -
  from assms obtain vs where d: "distinct vs"
    and eq: "mset (map und es) = mset (map und (cyc_edges vs))"
    unfolding simple_cycle_def by blast
  have deg: "degree es w = (if w \<in> set vs then 2 else 0)" for w
    using degree_und_cong[OF eq, of w] degree_cyc_edges[OF d, of w] by simp
  have "v \<in> fst ` set es \<union> snd ` set es \<longleftrightarrow> v \<in> set vs"
    unfolding degree_pos_iff[symmetric] deg by simp
  with deg show ?thesis by simp
qed

text \<open>
  Degree 2 everywhere is not enough: two separate cycles are not one simple cycle.
\<close>

lemma two_cycles_not_simple_cycle:
  "\<not> simple_cycle (map stored [new_line 0 1, new_line 1 0, new_line 2 3, new_line 3 2])"
proof
  assume "simple_cycle (map stored [new_line 0 1, new_line 1 0, new_line 2 3, new_line 3 2])"
  from simple_cycle_first_kept[OF this] obtain ys where
    "orient_lines [new_line 0 1, new_line 1 0, new_line 2 3, new_line 3 2] = Inr ys" by blast
  moreover have "orient_lines [new_line 0 1, new_line 1 0, new_line 2 3, new_line 3 2]
      = Inl IndexError" by code_simp
  ultimately show False by simp
qed

section \<open>Calling \<open>orient_lines\<close> on its own output\<close>

lemma orient_pair_not_swap: "orient_pair (\<not> b) (prod.swap p) = orient_pair b p"
  by (simp add: orient_pair_def)

lemma trace_inv_init: "trace_inv 1 (init_state xs)"
  by (simp add: trace_inv_def flip_trace_def uniform_from_def init_state_def)

lemma uniform_from_mono: "uniform_from a st \<Longrightarrow> a \<le> b \<Longrightarrow> uniform_from b st"
  unfolding uniform_from_def by (meson le_trans)

lemma uniform_from_reorder: "uniform_from a (reorder j k st) = uniform_from a st"
  by (simp add: uniform_from_def reorder_def)

lemma uniform_from_flip: "uniform_from j st \<Longrightarrow> uniform_from j (flip_pool j st)"
  unfolding uniform_from_def by (simp add: flip_pool_def nth_toggle_from)

lemma flip_trace_reorder:
  assumes ft: "flip_trace j st" and un: "uniform_from j st"
    and len: "length (oriented st) = length (point_pair_ids st)"
    and jk: "j \<le> k" and k: "k < length (point_pair_ids st)"
  shows "flip_trace j (reorder j k st)"
proof -
  let ?p = "point_pair_ids st" and ?o = "oriented st"
  let ?p' = "swap_rows ?p j k"
  note ft = ft[unfolded flip_trace_def, rule_format]
  have jN: "j < length ?p" using jk k by simp
  have "j \<le> j \<and> j < length ?o \<and> j \<le> k \<and> k < length ?o" using jN jk k len by simp
  from un[unfolded uniform_from_def, rule_format, OF this] have ojk: "?o ! j = ?o ! k" .
  have low: "?p' ! a = ?p ! a" if "a < j" for a
    using that jN jk k by (simp add: nth_swap_rows)
  have ft': "snd (orient_pair (?o ! a = ?o ! i) (?p' ! a)) \<noteq> snd (?p' ! (i - 1))"
    if i: "1 \<le> i \<and> i < j \<and> ?o ! i \<noteq> ?o ! (i - 1)" and a: "i \<le> a \<and> a < length ?p" for i a
  proof -
    from i have im: "i - 1 < j" by arith
    note old = ft[OF i]
    consider "a = j" | "a = k" "a \<noteq> j" | "a \<noteq> j" "a \<noteq> k" by blast
    then show ?thesis
    proof cases
      case 1
      have "i \<le> k \<and> k < length ?p" using i jk k by arith
      from old[OF this] show ?thesis
        unfolding low[OF im] 1 using jN k ojk by (simp add: nth_swap_rows)
    next
      case 2
      have "i \<le> j \<and> j < length ?p" using i jN by arith
      from old[OF this] show ?thesis
        unfolding low[OF im] using 2 jN k ojk by (simp add: nth_swap_rows)
    next
      case 3
      from old[OF a] show ?thesis
        unfolding low[OF im] using 3 a jN k by (simp add: nth_swap_rows)
    qed
  qed
  show ?thesis
    unfolding flip_trace_def using ft' by (simp add: reorder_def)
qed

lemma flip_trace_flip:
  assumes ft: "flip_trace j st" and len: "length (oriented st) = length (point_pair_ids st)"
  shows "flip_trace j (flip_pool j st)"
proof -
  let ?p = "point_pair_ids st" and ?o = "oriented st"
  let ?p' = "flip_from j ?p" and ?o' = "toggle_from j ?o"
  note ft = ft[unfolded flip_trace_def, rule_format]
  have ft': "snd (orient_pair (?o' ! a = ?o' ! i) (?p' ! a)) \<noteq> snd (?p' ! (i - 1))"
    if i: "1 \<le> i \<and> i < j \<and> ?o' ! i \<noteq> ?o' ! (i - 1)" and a: "i \<le> a \<and> a < length ?p" for i a
  proof -
    from i a have il: "i < length ?o" "i - 1 < length ?o" "i - 1 < j" using len by arith+
    then have oi: "?o' ! i = ?o ! i" "?o' ! (i - 1) = ?o ! (i - 1)"
      using i by (simp_all add: nth_toggle_from)
    have pm: "?p' ! (i - 1) = ?p ! (i - 1)" using il len by (simp add: nth_flip_from)
    from i oi have i0: "1 \<le> i \<and> i < j \<and> ?o ! i \<noteq> ?o ! (i - 1)" by simp
    have "orient_pair (?o' ! a = ?o ! i) (?p' ! a) = orient_pair (?o ! a = ?o ! i) (?p ! a)"
    proof (cases "a < j")
      case True
      then show ?thesis using a len by (simp add: nth_toggle_from nth_flip_from)
    next
      case False
      then have "?o' ! a = (\<not> ?o ! a)" "?p' ! a = prod.swap (?p ! a)"
        using a len by (simp_all add: nth_toggle_from nth_flip_from)
      then show ?thesis by (auto simp: orient_pair_def)
    qed
    with ft[OF i0 a] show ?thesis unfolding oi pm by simp
  qed
  show ?thesis
    unfolding flip_trace_def using ft' by (simp add: flip_pool_def)
qed

lemma flip_trace_Suc_direct:
  assumes ft: "flip_trace j st" and un: "uniform_from (j - 1) st"
    and j: "1 \<le> j" and jN: "j < length (oriented st)"
  shows "flip_trace (Suc j) st"
proof -
  have "j - 1 \<le> j \<and> j < length (oriented st) \<and> j - 1 \<le> j - 1 \<and> j - 1 < length (oriented st)"
    using j jN by arith
  from un[unfolded uniform_from_def, rule_format, OF this]
  have eq: "oriented st ! j = oriented st ! (j - 1)" .
  show ?thesis
    unfolding flip_trace_def
  proof (intro allI impI)
    fix i k
    assume i: "1 \<le> i \<and> i < Suc j \<and> oriented st ! i \<noteq> oriented st ! (i - 1)"
      and k: "i \<le> k \<and> k < length (point_pair_ids st)"
    from i eq have "i \<noteq> j" by blast
    with i have "1 \<le> i \<and> i < j \<and> oriented st ! i \<noteq> oriented st ! (i - 1)" by arith
    from ft[unfolded flip_trace_def, rule_format, OF this k]
    show "snd (orient_pair (oriented st ! k = oriented st ! i) (point_pair_ids st ! k))
        \<noteq> snd (point_pair_ids st ! (i - 1))" .
  qed
qed

lemma flip_trace_Suc_flipped:
  assumes ft: "flip_trace j st" and un: "uniform_from j st"
    and len: "length (oriented st) = length (point_pair_ids st)"
    and nm: "\<forall>k. j \<le> k \<and> k < length (point_pair_ids st) \<longrightarrow>
               snd (point_pair_ids st ! k) \<noteq> snd (point_pair_ids st ! (j - 1))"
  shows "flip_trace (Suc j) st"
proof -
  have new: "snd (orient_pair (oriented st ! k = oriented st ! j) (point_pair_ids st ! k))
      \<noteq> snd (point_pair_ids st ! (j - 1))"
    if k: "j \<le> k \<and> k < length (point_pair_ids st)" for k
  proof -
    from k len have "j \<le> k \<and> k < length (oriented st) \<and> j \<le> j \<and> j < length (oriented st)"
      by arith
    from un[unfolded uniform_from_def, rule_format, OF this]
    have "oriented st ! k = oriented st ! j" .
    moreover from nm k have "snd (point_pair_ids st ! k) \<noteq> snd (point_pair_ids st ! (j - 1))"
      by blast
    ultimately show ?thesis by (simp add: orient_pair_def)
  qed
  show ?thesis
    unfolding flip_trace_def
  proof (intro allI impI)
    fix i k
    assume i: "1 \<le> i \<and> i < Suc j \<and> oriented st ! i \<noteq> oriented st ! (i - 1)"
      and k: "i \<le> k \<and> k < length (point_pair_ids st)"
    show "snd (orient_pair (oriented st ! k = oriented st ! i) (point_pair_ids st ! k))
        \<noteq> snd (point_pair_ids st ! (i - 1))"
    proof (cases "i = j")
      case True
      with new k show ?thesis by simp
    next
      case False
      with i have "1 \<le> i \<and> i < j \<and> oriented st ! i \<noteq> oriented st ! (i - 1)" by arith
      from ft[unfolded flip_trace_def, rule_format, OF this k] show ?thesis .
    qed
  qed
qed

lemma trace_step:
  assumes inv: "orient_inv xs j st" and tr: "trace_inv j st"
    and j: "1 \<le> j" and jN: "j < length xs" and step: "orient_step j st = Inr st'"
  shows "trace_inv (Suc j) st'"
proof -
  let ?p = "point_pair_ids st"
  from inv have lp: "length ?p = length xs" and lo: "length (oriented st) = length xs"
    unfolding orient_inv_def by blast+
  from tr have un1: "uniform_from (j - 1) st" and ft: "flip_trace j st"
    unfolding trace_inv_def by blast+
  have un: "uniform_from j st" by (rule uniform_from_mono[OF un1]) simp
  show ?thesis
  proof (cases j st rule: orient_step_cases)
    case (direct k)
    with step have st': "st' = reorder j k st" by simp
    have lo': "length (oriented st') = length xs" unfolding st' using lo by (simp add: reorder_def)
    have "flip_trace j st'" unfolding st'
      by (rule flip_trace_reorder[OF ft un _ direct(1,2)]) (simp add: lp lo)
    moreover have un1': "uniform_from (j - 1) st'"
      unfolding st' uniform_from_reorder by (rule un1)
    ultimately have "flip_trace (Suc j) st'"
      using j jN lo' by (intro flip_trace_Suc_direct) simp_all
    moreover have "uniform_from j st'" by (rule uniform_from_mono[OF un1']) simp
    ultimately show ?thesis unfolding trace_inv_def by simp
  next
    case (flipped k)
    let ?st1 = "flip_pool j st"
    let ?q = "flip_from j ?p"
    from flipped(6) step have st': "st' = reorder j k ?st1" by (simp add: flip_pool_def)
    have l1: "length (oriented ?st1) = length (point_pair_ids ?st1)"
      by (simp add: flip_pool_def lp lo)
    have k1: "k < length (point_pair_ids ?st1)" using flipped(3) by (simp add: flip_pool_def)
    have un': "uniform_from j st'"
      unfolding st' uniform_from_reorder by (rule uniform_from_flip[OF un])
    have "flip_trace j ?st1" by (rule flip_trace_flip[OF ft]) (simp add: lp lo)
    then have ft': "flip_trace j st'" unfolding st'
      by (rule flip_trace_reorder[OF _ uniform_from_flip[OF un] l1 flipped(2) k1])
    have p': "point_pair_ids st' = swap_rows ?q j k"
      unfolding st' by (simp add: reorder_def flip_pool_def)
    have jl: "j < length ?p" using jN lp by simp
    have jm: "j - 1 < j" "j - 1 \<noteq> k" "j - 1 < length ?p" using j jl flipped(2) by arith+
    have prev: "point_pair_ids st' ! (j - 1) = ?p ! (j - 1)"
      unfolding p' using jm jl flipped(3) by (simp add: nth_swap_rows nth_flip_from)
    have nm: "snd (point_pair_ids st' ! a) \<noteq> snd (point_pair_ids st' ! (j - 1))"
      if a: "j \<le> a \<and> a < length (point_pair_ids st')" for a
    proof -
      from a have al: "a < length ?p" unfolding p' by simp
      have "\<exists>b. j \<le> b \<and> b < length ?p \<and> point_pair_ids st' ! a = ?q ! b"
      proof -
        consider "a = k" | "a \<noteq> k" "a = j" | "a \<noteq> k" "a \<noteq> j" by blast
        then show ?thesis
        proof cases
          case 1
          then have "point_pair_ids st' ! a = ?q ! j"
            unfolding p' using jl flipped(3) by (simp add: nth_swap_rows)
          with jl show ?thesis by blast
        next
          case 2
          then have "point_pair_ids st' ! a = ?q ! k"
            unfolding p' using jl flipped(3) by (simp add: nth_swap_rows)
          with flipped(2,3) show ?thesis by blast
        next
          case 3
          then have "point_pair_ids st' ! a = ?q ! a"
            unfolding p' using jl flipped(3) al by (simp add: nth_swap_rows)
          with a al show ?thesis by blast
        qed
      qed
      then obtain b where b: "j \<le> b \<and> b < length ?p" and e: "point_pair_ids st' ! a = ?q ! b"
        by blast
      from b have "?q ! b = prod.swap (?p ! b)" by (simp add: nth_flip_from)
      moreover from flipped(1) b have "fst (?p ! b) \<noteq> snd (?p ! (j - 1))" by blast
      ultimately show ?thesis unfolding e prev by simp
    qed
    have l': "length (oriented st') = length (point_pair_ids st')"
      unfolding st' using l1 by (simp add: reorder_def)
    have "flip_trace (Suc j) st'"
      by (rule flip_trace_Suc_flipped[OF ft' un' l']) (use nm in blast)
    with un' show ?thesis unfolding trace_inv_def by simp
  next
    case stuck
    with step show ?thesis by simp
  qed
qed

lemma trace_loop:
  "orient_inv xs j st \<Longrightarrow> trace_inv j st \<Longrightarrow> 1 \<le> j \<Longrightarrow> j \<le> m \<Longrightarrow> m \<le> length xs \<Longrightarrow>
   orient_loop [j..<m] st = Inr st' \<Longrightarrow> trace_inv m st'"
proof (induction "m - j" arbitrary: j st)
  case 0
  then have "j = m" by simp
  with 0 show ?case by simp
next
  case (Suc n)
  then have jm: "j < m" by simp
  then have u: "[j..<m] = j # [Suc j..<m]" by (simp add: upt_conv_Cons)
  from jm Suc.prems(5) have jN: "j < length xs" by simp
  from Suc.prems(6) obtain st1 where s1: "orient_step j st = Inr st1"
    and rest: "orient_loop [Suc j..<m] st1 = Inr st'"
    unfolding u by (auto split: sum.splits)
  have inv1: "orient_inv xs (Suc j) st1"
    by (rule orient_step_inv[OF Suc.prems(1,3) jN s1])
  have tr1: "trace_inv (Suc j) st1"
    by (rule trace_step[OF Suc.prems(1,2,3) jN s1])
  have "n = m - Suc j" using Suc.hyps(2) by simp
  from Suc.hyps(1)[OF this inv1 tr1 _ _ Suc.prems(5) rest] jm show ?case by simp
qed

lemma swap_rows_same [simp]: "swap_rows a j j = a"
  by (simp add: swap_rows_def)

lemma reorder_same [simp]: "reorder j j st = st"
  by (simp add: reorder_def)

lemma replay_step:
  assumes rel: "replay_rel fin j st" and j: "1 \<le> j" and jN: "j < length (point_pair_ids fin)"
    and chain: "\<forall>i. Suc i < length (point_pair_ids fin) \<longrightarrow>
                  snd (point_pair_ids fin ! i) = fst (point_pair_ids fin ! Suc i)"
    and ft: "flip_trace (length (point_pair_ids fin)) fin"
  shows "\<exists>st'. orient_step j st = Inr st' \<and> replay_rel fin (Suc j) st'"
proof -
  let ?N = "length (point_pair_ids fin)"
  let ?P = "point_pair_ids fin" and ?O = "oriented fin"
  let ?p = "point_pair_ids st" and ?o = "oriented st"
  from rel have lp: "length ?p = ?N" and lo: "length ?o = ?N" and ord: "order st = [0..<?N]"
    and pk: "\<And>k. k < ?N \<Longrightarrow> ?p ! k =
        (if k < j then ?P ! k else orient_pair (?O ! k = ?O ! (j - 1)) (?P ! k))"
    and ok: "\<And>k. k < ?N \<Longrightarrow> ?o ! k = (if k < j then ?O ! k else ?O ! (j - 1))"
    unfolding replay_rel_def by blast+
  from j jN have jm: "j - 1 < j" "j - 1 < ?N" "Suc (j - 1) = j" by arith+
  have out: "snd (?p ! (j - 1)) = snd (?P ! (j - 1))" using pk[OF jm(2)] jm(1) by simp
  have ch: "fst (?P ! j) = snd (?P ! (j - 1))"
    using chain[rule_format, of "j - 1"] jm(3) jN by simp
  have pj: "?p ! j = orient_pair (?O ! j = ?O ! (j - 1)) (?P ! j)" using pk[OF jN] by simp
  show ?thesis
  proof (cases "?O ! j = ?O ! (j - 1)")
    case same: True
    then have m: "fst (?p ! j) = snd (?p ! (j - 1))"
      unfolding out pj using ch by (simp add: orient_pair_def)
    have step: "orient_step j st = Inr st"
    proof (cases j st rule: orient_step_cases)
      case (direct k)
      have "k = j"
      proof (rule ccontr)
        assume "k \<noteq> j"
        with direct(1) have "j \<le> j \<and> j < k" by arith
        with direct(4) m show False by blast
      qed
      with direct(5) show ?thesis by simp
    next
      case (flipped k)
      from flipped(1) jN lp m show ?thesis by simp
    next
      case stuck
      from stuck(1) jN lp m show ?thesis by simp
    qed
    have "replay_rel fin (Suc j) st"
      unfolding replay_rel_def
    proof (intro conjI allI impI)
      show "length ?p = ?N" by (rule lp)
      show "length ?o = ?N" by (rule lo)
      show "order st = [0..<?N]" by (rule ord)
    next
      fix k assume k: "k < ?N"
      show "?p ! k = (if k < Suc j then ?P ! k
          else orient_pair (?O ! k = ?O ! (Suc j - 1)) (?P ! k))"
        using pk[OF k] same by (cases "k = j") (auto simp: orient_pair_def less_Suc_eq)
      show "?o ! k = (if k < Suc j then ?O ! k else ?O ! (Suc j - 1))"
        using ok[OF k] same by (cases "k = j") (auto simp: less_Suc_eq)
    qed
    with step show ?thesis by blast
  next
    case diff: False
    have jj: "1 \<le> j \<and> j < ?N \<and> ?O ! j \<noteq> ?O ! (j - 1)" using j jN diff by simp
    note tr = ft[unfolded flip_trace_def, rule_format, OF jj]
    have nf: "fst (?p ! k) \<noteq> snd (?p ! (j - 1))" if k: "j \<le> k \<and> k < length ?p" for k
    proof -
      from k lp have kN: "k < ?N" and kk: "j \<le> k \<and> k < ?N" by simp_all
      have "?p ! k = orient_pair (?O ! k = ?O ! (j - 1)) (?P ! k)" using pk[OF kN] k by simp
      also have "(?O ! k = ?O ! (j - 1)) = (\<not> (?O ! k = ?O ! j))" using diff by blast
      finally have "?p ! k = prod.swap (orient_pair (?O ! k = ?O ! j) (?P ! k))"
        by (simp add: orient_pair_swap)
      with tr[OF kk] show ?thesis unfolding out by simp
    qed
    have ms: "snd (?p ! j) = snd (?p ! (j - 1))"
      unfolding out pj using ch diff by (simp add: orient_pair_def)
    let ?st1 = "flip_pool j st"
    have step: "orient_step j st = Inr ?st1"
    proof (cases j st rule: orient_step_cases)
      case (direct k)
      with nf show ?thesis by blast
    next
      case (flipped k)
      have "k = j"
      proof (rule ccontr)
        assume "k \<noteq> j"
        with flipped(2) have "j \<le> j \<and> j < k" by arith
        with flipped(5) ms show False by blast
      qed
      with flipped(6) show ?thesis by (simp add: flip_pool_def)
    next
      case stuck
      from stuck(1) jN lp ms show ?thesis by simp
    qed
    have "replay_rel fin (Suc j) ?st1"
      unfolding replay_rel_def
    proof (intro conjI allI impI)
      show "length (point_pair_ids ?st1) = ?N" by (simp add: flip_pool_def lp)
      show "length (oriented ?st1) = ?N" by (simp add: flip_pool_def lo)
      show "order ?st1 = [0..<?N]" by (simp add: flip_pool_def ord)
    next
      fix k assume k: "k < ?N"
      have p1: "point_pair_ids ?st1 ! k = (if k < j then ?p ! k else prod.swap (?p ! k))"
        using k lp by (simp add: flip_pool_def nth_flip_from)
      have o1: "oriented ?st1 ! k = (if k < j then ?o ! k else \<not> ?o ! k)"
        using k lo by (simp add: flip_pool_def nth_toggle_from)
      have e: "(?O ! k = ?O ! (j - 1)) = (\<not> (?O ! k = ?O ! j))" using diff by blast
      show "point_pair_ids ?st1 ! k = (if k < Suc j then ?P ! k
          else orient_pair (?O ! k = ?O ! (Suc j - 1)) (?P ! k))"
      proof (cases "k < j")
        case True
        then show ?thesis unfolding p1 using pk[OF k] by simp
      next
        case False
        then have "point_pair_ids ?st1 ! k = orient_pair (?O ! k = ?O ! j) (?P ! k)"
          unfolding p1 using pk[OF k] e by (simp add: orient_pair_swap)
        then show ?thesis using False by (cases "k = j") (auto simp: orient_pair_def)
      qed
      show "oriented ?st1 ! k = (if k < Suc j then ?O ! k else ?O ! (Suc j - 1))"
      proof (cases "k < j")
        case True
        then show ?thesis unfolding o1 using ok[OF k] by simp
      next
        case False
        then have "oriented ?st1 ! k = (\<not> ?O ! (j - 1))" unfolding o1 using ok[OF k] by simp
        also have "\<dots> = ?O ! j" using diff by blast
        finally show ?thesis using False by (cases "k = j") auto
      qed
    qed
    with step show ?thesis by blast
  qed
qed

lemma neg_line_neg_line [simp]: "neg_line (neg_line l) = l"
  by (simp add: neg_line_def)

lemma replay_loop:
  "replay_rel fin j st \<Longrightarrow> 1 \<le> j \<Longrightarrow> j \<le> length (point_pair_ids fin) \<Longrightarrow>
   \<forall>i. Suc i < length (point_pair_ids fin) \<longrightarrow>
         snd (point_pair_ids fin ! i) = fst (point_pair_ids fin ! Suc i) \<Longrightarrow>
   flip_trace (length (point_pair_ids fin)) fin \<Longrightarrow>
   \<exists>st'. orient_loop [j..<length (point_pair_ids fin)] st = Inr st' \<and>
         replay_rel fin (length (point_pair_ids fin)) st'"
proof (induction "length (point_pair_ids fin) - j" arbitrary: j st)
  case 0
  then have "j = length (point_pair_ids fin)" by simp
  with 0 show ?case by simp
next
  case (Suc n)
  let ?N = "length (point_pair_ids fin)"
  from Suc have jN: "j < ?N" by simp
  then have u: "[j..<?N] = j # [Suc j..<?N]" by (simp add: upt_conv_Cons)
  from replay_step[OF Suc.prems(1,2) jN Suc.prems(4,5)] obtain st1 where
    s1: "orient_step j st = Inr st1" and r1: "replay_rel fin (Suc j) st1" by blast
  have "n = ?N - Suc j" using Suc.hyps(2) by simp
  from Suc.hyps(1)[OF this r1 _ _ Suc.prems(4,5)] jN obtain st' where
    "orient_loop [Suc j..<?N] st1 = Inr st'" "replay_rel fin ?N st'" by auto
  then show ?case unfolding u using s1 by simp
qed

lemma replay_init:
  assumes inv: "orient_inv xs (length xs) fin" and ne: "xs \<noteq> []"
  shows "replay_rel fin 1 (init_state (reconstruct fin))"
proof -
  let ?N = "length xs"
  let ?ys = "reconstruct fin"
  from inv have lp: "length (point_pair_ids fin) = ?N"
    and rel: "\<forall>k < ?N. point_pair_ids fin ! k =
        orient_pair (oriented fin ! k) (stored (xs ! (order fin ! k)))"
    and f0: "0 < ?N \<longrightarrow> order fin ! 0 = 0 \<and> oriented fin ! 0"
    unfolding orient_inv_def by blast+
  from ne f0 have o0: "oriented fin ! 0" by simp
  have ly: "length ?ys = ?N" by (rule reconstruct_length[OF inv])
  have st: "stored (?ys ! k) = stored (xs ! (order fin ! k))" if "k < ?N" for k
    by (simp add: reconstruct_nth[OF inv that])
  have pp: "point_pair_ids (init_state ?ys) ! k =
      (if k < 1 then point_pair_ids fin ! k
       else orient_pair (oriented fin ! k = oriented fin ! (1 - 1)) (point_pair_ids fin ! k))"
    if k: "k < ?N" for k
  proof -
    have "point_pair_ids (init_state ?ys) ! k = stored (xs ! (order fin ! k))"
      using k ly st[OF k] by (simp add: init_state_ppi)
    moreover have "point_pair_ids fin ! k =
        orient_pair (oriented fin ! k) (stored (xs ! (order fin ! k)))"
      using rel k by blast
    ultimately show ?thesis using o0 by (cases "k = 0") (auto simp: orient_pair_def)
  qed
  have oo: "oriented (init_state ?ys) ! k =
      (if k < 1 then oriented fin ! k else oriented fin ! (1 - 1))" if k: "k < ?N" for k
    using k ly o0 by (cases "k = 0") (auto simp: init_state_def)
  show ?thesis
    unfolding replay_rel_def lp
  proof (intro conjI allI impI)
    show "length (point_pair_ids (init_state ?ys)) = ?N" using ly by (simp add: init_state_def)
    show "length (oriented (init_state ?ys)) = ?N" using ly by (simp add: init_state_def)
    show "order (init_state ?ys) = [0..<?N]" using ly by (simp add: init_state_def)
  next
    fix k assume k: "k < ?N"
    show "point_pair_ids (init_state ?ys) ! k =
      (if k < 1 then point_pair_ids fin ! k
       else orient_pair (oriented fin ! k = oriented fin ! (1 - 1)) (point_pair_ids fin ! k))"
      by (rule pp[OF k])
    show "oriented (init_state ?ys) ! k =
      (if k < 1 then oriented fin ! k else oriented fin ! (1 - 1))"
      by (rule oo[OF k])
  qed
qed

lemma replay_final:
  assumes inv: "orient_inv xs (length xs) fin"
    and rel: "replay_rel fin (length xs) st" and la: "lines_arg st = reconstruct fin"
  shows "reconstruct st = map (\<lambda>i. xs ! i) (order fin)"
proof (rule nth_equalityI)
  let ?N = "length xs"
  from inv have lp: "length (point_pair_ids fin) = ?N" and lo: "length (order fin) = ?N"
    unfolding orient_inv_def by blast+
  from rel have l2: "length (oriented st) = ?N" and ord: "order st = [0..<?N]"
    and ok: "\<forall>k < ?N. oriented st ! k = (if k < ?N then oriented fin ! k else oriented fin ! (?N - 1))"
    unfolding replay_rel_def lp by blast+
  show "length (reconstruct st) = length (map (\<lambda>i. xs ! i) (order fin))"
    using l2 lo by (simp add: reconstruct_def Let_def)
  fix i assume "i < length (reconstruct st)"
  then have i: "i < ?N" using l2 by (simp add: reconstruct_def Let_def)
  have o: "oriented st ! i = oriented fin ! i" using ok i by simp
  have "reconstruct st ! i =
      (if oriented fin ! i then reconstruct fin ! i else neg_line (reconstruct fin ! i))"
    using i l2 ord la o by (simp add: reconstruct_def[of st] Let_def)
  also have "\<dots> = xs ! (order fin ! i)"
    by (simp add: reconstruct_nth[OF inv i])
  finally show "reconstruct st ! i = map (\<lambda>i. xs ! i) (order fin) ! i"
    using i lo by simp
qed

lemma orient_lines_twice:
  assumes run: "orient_loop [1..<length xs] (init_state xs) = Inr fin"
  shows "\<exists>zs. orient_lines (reconstruct fin) = Inr zs \<and> flips_undone xs (reconstruct fin) zs"
proof (cases "xs = []")
  case True
  with run have "fin = init_state []" by simp
  then have "reconstruct fin = []" by (simp add: reconstruct_def init_state_def)
  moreover have "orient_lines [] = Inr []"
    by (simp add: orient_lines_def orient_lines_run_def reconstruct_def init_state_def)
  ultimately show ?thesis using True by (simp add: flips_undone_def)
next
  case False
  let ?N = "length xs"
  let ?ys = "reconstruct fin"
  from False have one: "1 \<le> ?N" by (cases xs) simp_all
  have inv: "orient_inv xs ?N fin"
    by (rule orient_loop_inv[OF orient_inv_init _ one _ run]) simp_all
  have tr: "trace_inv ?N fin"
    by (rule trace_loop[OF orient_inv_init trace_inv_init _ one _ run]) simp_all
  from inv have lp: "length (point_pair_ids fin) = ?N"
    and chain: "\<forall>i. Suc i < ?N \<longrightarrow> snd (point_pair_ids fin ! i) = fst (point_pair_ids fin ! Suc i)"
    and ms: "mset (order fin) = mset [0..<?N]"
    unfolding orient_inv_def by blast+
  from tr have ft: "flip_trace (length (point_pair_ids fin)) fin"
    unfolding trace_inv_def lp by blast
  have ly: "length ?ys = ?N" by (rule reconstruct_length[OF inv])
  have r1: "replay_rel fin 1 (init_state ?ys)" by (rule replay_init[OF inv False])
  from replay_loop[OF r1 _ _ _ ft] one chain lp obtain st where
    run2: "orient_loop [1..<?N] (init_state ?ys) = Inr st" and rN: "replay_rel fin ?N st"
    by auto
  from run2 have run2': "orient_loop [1..<length ?ys] (init_state ?ys) = Inr st"
    unfolding ly .
  from orient_loop_lines_arg[of "[1..<?N]" "init_state ?ys" st] run2
  have la: "lines_arg st = ?ys" by (simp add: init_state_def)
  have zs: "reconstruct st = map (\<lambda>i. xs ! i) (order fin)"
    by (rule replay_final[OF inv rN la])
  have "\<forall>i < ?N. ?ys ! i = xs ! (order fin ! i) \<or> ?ys ! i = neg_line (xs ! (order fin ! i))"
    by (simp add: reconstruct_nth[OF inv])
  with ms zs ly have "flips_undone xs ?ys (reconstruct st)"
    unfolding flips_undone_def by blast
  with orient_lines_Inr[OF run2'] show ?thesis by blast
qed

text \<open>
  Claim C6 (as amended). For every input that forms one simple cycle, \<open>orient_lines\<close>
  applied to its own output returns the same segments in the same order, each with the
  sign it had in the input: the sign flips of the first call are undone. The output
  comes back unchanged only where the first call flipped no segment.
\<close>

theorem orient_lines_twice_undoes_flips:
  assumes "simple_cycle (map stored xs)"
  shows "\<exists>ys zs. orient_lines xs = Inr ys \<and> orient_lines ys = Inr zs \<and> flips_undone xs ys zs"
proof -
  from simple_cycle_run[OF assms] obtain fin where
    run: "orient_loop [1..<length xs] (init_state xs) = Inr fin" by blast
  from orient_lines_twice[OF run] orient_lines_Inr[OF run] show ?thesis by blast
qed

lemma simple_cycle_triangle:
  "simple_cycle (map stored [new_line 0 1, new_line 2 1, new_line 0 2])"
  unfolding simple_cycle_def
  by (intro conjI exI[of _ "[0, 1, 2]"]) (simp_all add: cyc_edges_def und_def stored_def new_line_def)

theorem orient_lines_twice_undoes_flips_witness:
  "simple_cycle (map stored [new_line 0 1, new_line 2 1, new_line 0 2]) \<and>
   (\<exists>ys zs. orient_lines [new_line 0 1, new_line 2 1, new_line 0 2] = Inr ys \<and>
      orient_lines ys = Inr zs \<and>
      flips_undone [new_line 0 1, new_line 2 1, new_line 0 2] ys zs)"
  using orient_lines_twice_undoes_flips[OF simple_cycle_triangle] simple_cycle_triangle
  by blast

theorem orient_lines_not_idempotent_counterexample:
  "simple_cycle (map stored [new_line 0 1, new_line 2 1, new_line 0 2]) \<and>
   orient_lines [new_line 0 1, new_line 2 1, new_line 0 2]
     = Inr [new_line 0 1, neg_line (new_line 2 1), neg_line (new_line 0 2)] \<and>
   orient_lines [new_line 0 1, neg_line (new_line 2 1), neg_line (new_line 0 2)]
     = Inr [new_line 0 1, new_line 2 1, new_line 0 2] \<and>
   [new_line 0 1, new_line 2 1, new_line 0 2]
     \<noteq> [new_line 0 1, neg_line (new_line 2 1), neg_line (new_line 0 2)]"
proof (intro conjI)
  show "simple_cycle (map stored [new_line 0 1, new_line 2 1, new_line 0 2])"
    by (rule simple_cycle_triangle)
  show "orient_lines [new_line 0 1, new_line 2 1, new_line 0 2]
     = Inr [new_line 0 1, neg_line (new_line 2 1), neg_line (new_line 0 2)]"
    by code_simp
  show "orient_lines [new_line 0 1, neg_line (new_line 2 1), neg_line (new_line 0 2)]
     = Inr [new_line 0 1, new_line 2 1, new_line 0 2]"
    by code_simp
  show "[new_line 0 1, new_line 2 1, new_line 0 2]
     \<noteq> [new_line 0 1, neg_line (new_line 2 1), neg_line (new_line 0 2)]"
    by (simp add: new_line_def neg_line_def)
qed

section \<open>The cell-type filter\<close>

lemma zip_filter_nths:
  "map fst (filter (\<lambda>(d, c). P c) (zip xs ys)) = nths xs {i. i < length ys \<and> P (ys ! i)}"
proof (induction xs arbitrary: ys)
  case Nil
  show ?case by simp
next
  case (Cons x xs)
  show ?case
  proof (cases ys)
    case Nil
    then show ?thesis by simp
  next
    case (Cons y ys')
    have s: "{j. Suc j \<in> {i. i < length ys \<and> P (ys ! i)}} = {i. i < length ys' \<and> P (ys' ! i)}"
      unfolding Cons by auto
    have z: "0 \<in> {i. i < length ys \<and> P (ys ! i)} \<longleftrightarrow> P y" unfolding Cons by simp
    show ?thesis
      unfolding nths_Cons s z using Cons.IH[of ys'] Cons by simp
  qed
qed

lemma keep_types_all:
  assumes "\<not> (\<exists>c \<in> set cs. ctype c \<in> cells_3d)" "\<not> (\<exists>c \<in> set cs. ctype c \<in> cells_2d)"
  shows "filter (\<lambda>c. ctype c \<in> keep_types cs) cs = cs"
  using assms by (simp add: keep_types_def)

text \<open>
  Claim C3. With \<open>remove_lower_dim_cells\<close>: if some block has a tier-3 type, exactly
  the tier-3 blocks are retained; otherwise, if some block has a tier-2 type, exactly the
  tier-2 blocks; otherwise all blocks. Every cell-data field loses the arrays at the
  positions of the removed blocks and no others, so what is left stays aligned with the
  surviving blocks. Points and point data are not touched.
\<close>

theorem cell_type_filter_keeps_highest_tier:
  "cells (cell_type_filter m) =
     (if \<exists>c \<in> set (cells m). ctype c \<in> cells_3d
        then filter (\<lambda>c. ctype c \<in> cells_3d) (cells m)
      else if \<exists>c \<in> set (cells m). ctype c \<in> cells_2d
        then filter (\<lambda>c. ctype c \<in> cells_2d) (cells m)
      else cells m) \<and>
   cells (cell_type_filter m) = nths (cells m) (kept_positions (cells m)) \<and>
   cell_data (cell_type_filter m) =
     map (\<lambda>(name, val). (name, nths val (kept_positions (cells m)))) (cell_data m) \<and>
   points (cell_type_filter m) = points m \<and> pdim (cell_type_filter m) = pdim m \<and>
   point_data (cell_type_filter m) = point_data m"
proof -
  let ?cs = "cells m"
  have c: "cells (cell_type_filter m) = filter (\<lambda>c. ctype c \<in> keep_types ?cs) ?cs"
    by (simp add: cell_type_filter_def Let_def)
  have tiers: "filter (\<lambda>c. ctype c \<in> keep_types ?cs) ?cs =
     (if \<exists>c \<in> set ?cs. ctype c \<in> cells_3d then filter (\<lambda>c. ctype c \<in> cells_3d) ?cs
      else if \<exists>c \<in> set ?cs. ctype c \<in> cells_2d then filter (\<lambda>c. ctype c \<in> cells_2d) ?cs
      else ?cs)"
    by (simp add: keep_types_def)
  have pos: "filter (\<lambda>c. ctype c \<in> keep_types ?cs) ?cs = nths ?cs (kept_positions ?cs)"
    unfolding kept_positions_def by (rule filter_eq_nths)
  have d: "cell_data (cell_type_filter m) =
     map (\<lambda>(name, val). (name, nths val (kept_positions ?cs))) (cell_data m)"
    unfolding kept_positions_def
    by (simp add: cell_type_filter_def Let_def zip_filter_nths)
  have rest: "points (cell_type_filter m) = points m" "pdim (cell_type_filter m) = pdim m"
    "point_data (cell_type_filter m) = point_data m"
    by (simp_all add: cell_type_filter_def Let_def)
  show ?thesis using c tiers pos d rest by simp
qed

theorem cell_type_filter_keeps_highest_tier_witness:
  "cells (cell_type_filter mesh_tet_tri)
     = [\<lparr>ctype = ''tetra'', carity = 4, cdata = [[0, 1, 2, 3]]\<rparr>] \<and>
   cell_data (cell_type_filter mesh_tet_tri) = [(''gmsh:physical'', [[9]])]"
proof -
  have k: "kept_positions (cells mesh_tet_tri) = {1}"
    by (auto simp: kept_positions_def keep_types_def mesh_tet_tri_def cells_3d_def cells_2d_def
          less_Suc_eq)
  note T = cell_type_filter_keeps_highest_tier[of mesh_tet_tri, unfolded k]
  from T have c: "cells (cell_type_filter mesh_tet_tri) = nths (cells mesh_tet_tri) {1}"
    by blast
  from T have d: "cell_data (cell_type_filter mesh_tet_tri) =
     map (\<lambda>(name, val). (name, nths val {1})) (cell_data mesh_tet_tri)"
    by blast
  have n1: "nths (cells mesh_tet_tri) {1}
      = [\<lparr>ctype = ''tetra'', carity = 4, cdata = [[0, 1, 2, 3]]\<rparr>]"
    unfolding mesh_tet_tri_def by code_simp
  have n2: "map (\<lambda>(name, val). (name, nths val {1})) (cell_data mesh_tet_tri)
      = [(''gmsh:physical'', [[9]])]"
    unfolding mesh_tet_tri_def by code_simp
  show ?thesis unfolding c d n1 n2 by simp
qed

section \<open>The dimension reducer\<close>

lemma max_abs_z_less: "ps \<noteq> [] \<Longrightarrow> max_abs_z ps < t \<longleftrightarrow> list_all (\<lambda>p. \<bar>p ! 2\<bar> < t) ps"
  unfolding max_abs_z_def list_all_iff by (subst Max_less_iff) auto

text \<open>
  The literal lies just above \<open>10^-13\<close> and its \<open>float32\<close> cast just below. No
  \<open>float64\<close> number lies from \<open>10^-13\<close> up to the literal, so that on a \<open>float64\<close>
  array the comparison with the literal is the comparison with \<open>10^-13\<close>. The two
  thresholds are numbers of their element types, within half a unit in the last place
  (\<open>2^-97\<close>, \<open>2^-68\<close>) of what they round.
\<close>

lemma z_tol_above: "(1::real) / 10 ^ 13 < z_tol Float64"
  by (simp add: z_tol_def)

lemma z_tol_below: "z_tol Float32 < (1::real) / 10 ^ 13"
  by (simp add: z_tol_def)

lemma is_floatI_div:
  "\<bar>m\<bar> < 2 ^ mant_bits dt \<Longrightarrow> e \<le> low_exp dt \<Longrightarrow> is_float dt (of_int m / 2 ^ e)"
  unfolding is_float_def by blast

lemma float64_gap:
  assumes f: "is_float Float64 x"
  shows "\<bar>x\<bar> < z_tol Float64 \<longleftrightarrow> \<bar>x\<bar> < 1 / 10 ^ 13"
proof
  assume "\<bar>x\<bar> < 1 / 10 ^ 13"
  with z_tol_above show "\<bar>x\<bar> < z_tol Float64" by simp
next
  assume lt: "\<bar>x\<bar> < z_tol Float64"
  show "\<bar>x\<bar> < 1 / 10 ^ 13"
  proof (rule ccontr)
    assume "\<not> \<bar>x\<bar> < 1 / 10 ^ 13"
    then have ge: "1 / 10 ^ 13 \<le> \<bar>x\<bar>" by simp
    from f obtain m :: int and e :: nat where m: "\<bar>m\<bar> < 2 ^ 53"
      and c: "(e \<le> 1074 \<and> x = of_int m / 2 ^ e) \<or> (e \<le> 971 \<and> x = of_int m * 2 ^ e)"
      unfolding is_float_def mant_bits_def low_exp_def high_exp_def by auto
    from c show False
    proof
      assume "e \<le> 971 \<and> x = of_int m * 2 ^ e"
      then have x: "\<bar>x\<bar> = of_int \<bar>m\<bar> * 2 ^ e" by (simp add: abs_mult)
      from ge have "0 < \<bar>x\<bar>" by (rule less_le_trans[rotated]) simp
      with x have "m \<noteq> 0" by auto
      then have "1 \<le> \<bar>m\<bar>" by simp
      then have "(1::real) \<le> of_int \<bar>m\<bar>" by linarith
      moreover have "(1::real) \<le> 2 ^ e" by simp
      ultimately have "(1::real) * 1 \<le> of_int \<bar>m\<bar> * 2 ^ e" by (rule mult_mono) simp_all
      with x have "1 \<le> \<bar>x\<bar>" by simp
      moreover have "z_tol Float64 < 1" by (simp add: z_tol_def)
      ultimately show False using lt by simp
    next
      assume "e \<le> 1074 \<and> x = of_int m / 2 ^ e"
      then have x: "\<bar>x\<bar> = of_int \<bar>m\<bar> / 2 ^ e" by simp
      show False
      proof (cases "e \<le> 96")
        case True
        define k :: int where "k = \<bar>m\<bar> * 2 ^ (96 - e)"
        from True have e96: "e + (96 - e) = 96" by simp
        have "(of_int k :: real) / 2 ^ (e + (96 - e)) = of_int \<bar>m\<bar> / 2 ^ e"
          unfolding k_def by (simp add: power_add)
        then have xk: "\<bar>x\<bar> = of_int k / 2 ^ 96" unfolding x e96 by simp
        from lt have "(of_int k :: real) < 7922816251426434" unfolding xk z_tol_def by simp
        then have k1: "k \<le> 7922816251426433" by simp
        from ge have "(2::real) ^ 96 \<le> of_int k * 10 ^ 13" unfolding xk by (simp add: field_simps)
        also have "of_int k * (10::real) ^ 13 = of_int (k * 10 ^ 13)" by simp
        finally have "(2::int) ^ 96 \<le> k * 10 ^ 13"
          by (metis of_int_le_iff of_int_numeral of_int_power)
        with k1 show False by simp
      next
        case False
        then have "97 \<le> e" by simp
        then have p: "(2::real) ^ 97 \<le> 2 ^ e" by (intro power_increasing) simp_all
        from m have "(of_int \<bar>m\<bar> :: real) < 2 ^ 53"
          by (metis of_int_less_iff of_int_numeral of_int_power)
        then have "of_int \<bar>m\<bar> / 2 ^ e < (2::real) ^ 53 / 2 ^ e" by (simp add: divide_strict_right_mono)
        also have "\<dots> \<le> 2 ^ 53 / 2 ^ 97" using p by (simp add: divide_left_mono)
        also have "\<dots> < 1 / 10 ^ 13" by simp
        finally show False using ge x by simp
      qed
    qed
  qed
qed

lemma z_tol_literal:
  "is_float Float64 (z_tol Float64) \<and> near Float64 (1 / 10 ^ 13) (z_tol Float64) \<and>
   \<bar>z_tol Float64 - 1 / 10 ^ 13\<bar> < 1 / 2 ^ 97 \<and>
   is_float Float32 (z_tol Float32) \<and> near Float32 (z_tol Float64) (z_tol Float32) \<and>
   \<bar>z_tol Float32 - z_tol Float64\<bar> < 1 / 2 ^ 68"
proof (intro conjI)
  show "\<bar>z_tol Float64 - 1 / 10 ^ 13\<bar> < 1 / 2 ^ 97" by (simp add: z_tol_def abs_if)
  show "\<bar>z_tol Float32 - z_tol Float64\<bar> < 1 / 2 ^ 68" by (simp add: z_tol_def abs_if)
  have "is_float Float64 (of_int 7922816251426434 / 2 ^ 96)"
    by (rule is_floatI_div) (simp_all add: mant_bits_def low_exp_def)
  then show "is_float Float64 (z_tol Float64)" by (simp add: z_tol_def)
  have "is_float Float32 (of_int 14757395 / 2 ^ 67)"
    by (rule is_floatI_div) (simp_all add: mant_bits_def low_exp_def)
  then show "is_float Float32 (z_tol Float32)" by (simp add: z_tol_def)
  show "near Float64 (1 / 10 ^ 13) (z_tol Float64)"
    by (simp add: near_def z_tol_def mant_bits_def abs_if)
  show "near Float32 (z_tol Float64) (z_tol Float32)"
    by (simp add: near_def z_tol_def mant_bits_def abs_if)
qed

lemma near_bump:
  assumes n: "near dt (1 / 10 ^ 12) y"
  shows "\<not> y < z_tol dt"
proof (cases dt)
  case Float32
  with n have "\<bar>y - 1 / 10 ^ 12\<bar> \<le> 1 / 10 ^ 12 / 2 ^ 24" by (simp add: near_def mant_bits_def)
  then have "1 / 10 ^ 12 - 1 / 10 ^ 12 / 2 ^ 24 \<le> y" by linarith
  moreover have "z_tol Float32 < 1 / 10 ^ 12 - 1 / 10 ^ 12 / 2 ^ 24" by (simp add: z_tol_def)
  ultimately show ?thesis unfolding Float32 by linarith
next
  case Float64
  with n have "\<bar>y - 1 / 10 ^ 12\<bar> \<le> 1 / 10 ^ 12 / 2 ^ 53" by (simp add: near_def mant_bits_def)
  then have "1 / 10 ^ 12 - 1 / 10 ^ 12 / 2 ^ 53 \<le> y" by linarith
  moreover have "z_tol Float64 < 1 / 10 ^ 12 - 1 / 10 ^ 12 / 2 ^ 53" by (simp add: z_tol_def)
  ultimately show ?thesis unfolding Float64 by linarith
qed

lemma float64_max_gap:
  assumes fz: "float_z m" and dt: "pdtype m = Float64" and ne: "points m \<noteq> []"
  shows "max_abs_z (points m) < z_tol (pdtype m) \<longleftrightarrow> max_abs_z (points m) < 1 / 10 ^ 13"
proof -
  have "\<bar>p ! 2\<bar> < z_tol Float64 \<longleftrightarrow> \<bar>p ! 2\<bar> < 1 / 10 ^ 13" if "p \<in> set (points m)" for p
  proof -
    from fz that dt have "is_float Float64 (p ! 2)" unfolding float_z_def by auto
    then show ?thesis by (rule float64_gap)
  qed
  then have l: "list_all (\<lambda>p. \<bar>p ! 2\<bar> < z_tol Float64) (points m)
      \<longleftrightarrow> list_all (\<lambda>p. \<bar>p ! 2\<bar> < 1 / 10 ^ 13) (points m)"
    unfolding list_all_iff by blast
  have a: "max_abs_z (points m) < z_tol Float64
      \<longleftrightarrow> list_all (\<lambda>p. \<bar>p ! 2\<bar> < z_tol Float64) (points m)"
    by (rule max_abs_z_less[OF ne])
  have b: "max_abs_z (points m) < 1 / 10 ^ 13
      \<longleftrightarrow> list_all (\<lambda>p. \<bar>p ! 2\<bar> < 1 / 10 ^ 13) (points m)"
    by (rule max_abs_z_less[OF ne])
  show ?thesis unfolding dt a b by (rule l)
qed

lemma dimension_reducer_max:
  assumes "pdim m = 3" and "points m \<noteq> []"
  shows "dimension_reducer m =
     (if max_abs_z (points m) < z_tol (pdtype m)
      then m\<lparr>pdim := 2, points := map (take 2) (points m)\<rparr> else m)"
  using assms max_abs_z_less[of "points m" "z_tol (pdtype m)"]
  by (simp add: dimension_reducer_def)

text \<open>
  Claim C5. With \<open>prune_z_0\<close> the reduction applies only to points of exactly three
  components. On the \<open>float64\<close> array that \<open>meshio\<close> reads: if the largest \<open>|z|\<close> over
  all points is strictly below \<open>1e-13\<close>, the third component is dropped from every
  point, which leaves points of two components; otherwise the points stay as they are.
  On a \<open>float32\<close> array the bound is \<open>1e-13\<close> as a \<open>float32\<close> number,
  \<open>14757395 / 2^67\<close>. One point whose \<open>|z|\<close> is \<open>1e-12\<close>, up to the rounding of
  the element type, is enough to keep all points at three components.
\<close>

theorem dimension_reducer_threshold:
  "generate_mesh False True False m = Inr (dimension_reducer m) \<and>
   (pdim m \<noteq> 3 \<longrightarrow> dimension_reducer m = m) \<and>
   (pdim m = 3 \<and> pdtype m = Float64 \<and> float_z m \<and> points m \<noteq> [] \<and>
      max_abs_z (points m) < 1 / 10 ^ 13 \<longrightarrow>
      dimension_reducer m = m\<lparr>pdim := 2, points := map (take 2) (points m)\<rparr>) \<and>
   (pdim m = 3 \<and> pdtype m = Float64 \<and> float_z m \<and> points m \<noteq> [] \<and>
      \<not> max_abs_z (points m) < 1 / 10 ^ 13 \<longrightarrow>
      dimension_reducer m = m) \<and>
   (pdim m = 3 \<and> pdtype m = Float32 \<and> points m \<noteq> [] \<and>
      max_abs_z (points m) < 14757395 / 2 ^ 67 \<longrightarrow>
      dimension_reducer m = m\<lparr>pdim := 2, points := map (take 2) (points m)\<rparr>) \<and>
   (pdim m = 3 \<and> pdtype m = Float32 \<and> points m \<noteq> [] \<and>
      \<not> max_abs_z (points m) < 14757395 / 2 ^ 67 \<longrightarrow>
      dimension_reducer m = m) \<and>
   (pdim m = 3 \<and> (\<forall>p \<in> set (points m). length p = 3) \<longrightarrow>
      (\<forall>p \<in> set (map (take 2) (points m)). length p = 2)) \<and>
   (pdim m = 3 \<and> (\<exists>p \<in> set (points m). near (pdtype m) (1 / 10 ^ 12) \<bar>p ! 2\<bar>) \<longrightarrow>
      dimension_reducer m = m)"
proof (intro conjI impI)
  show "generate_mesh False True False m = Inr (dimension_reducer m)"
    by (simp add: generate_mesh_def)
  show "dimension_reducer m = m" if "pdim m \<noteq> 3"
    using that by (simp add: dimension_reducer_def)
  show "dimension_reducer m = m\<lparr>pdim := 2, points := map (take 2) (points m)\<rparr>"
    if h: "pdim m = 3 \<and> pdtype m = Float64 \<and> float_z m \<and> points m \<noteq> [] \<and>
      max_abs_z (points m) < 1 / 10 ^ 13"
  proof -
    from h float64_max_gap[of m] have "max_abs_z (points m) < z_tol (pdtype m)" by blast
    with h dimension_reducer_max[of m] show ?thesis by simp
  qed
  show "dimension_reducer m = m"
    if h: "pdim m = 3 \<and> pdtype m = Float64 \<and> float_z m \<and> points m \<noteq> [] \<and>
      \<not> max_abs_z (points m) < 1 / 10 ^ 13"
  proof -
    from h float64_max_gap[of m] have "\<not> max_abs_z (points m) < z_tol (pdtype m)" by blast
    with h dimension_reducer_max[of m] show ?thesis by simp
  qed
  have t: "z_tol Float32 = 14757395 / 2 ^ 67" by (simp add: z_tol_def)
  show "dimension_reducer m = m\<lparr>pdim := 2, points := map (take 2) (points m)\<rparr>"
    if h: "pdim m = 3 \<and> pdtype m = Float32 \<and> points m \<noteq> [] \<and>
      max_abs_z (points m) < 14757395 / 2 ^ 67"
  proof -
    from h have "z_tol (pdtype m) = 14757395 / 2 ^ 67" using t by metis
    with h have "max_abs_z (points m) < z_tol (pdtype m)" by metis
    with h dimension_reducer_max[of m] show ?thesis by simp
  qed
  show "dimension_reducer m = m"
    if h: "pdim m = 3 \<and> pdtype m = Float32 \<and> points m \<noteq> [] \<and>
      \<not> max_abs_z (points m) < 14757395 / 2 ^ 67"
  proof -
    from h have "z_tol (pdtype m) = 14757395 / 2 ^ 67" using t by metis
    with h have "\<not> max_abs_z (points m) < z_tol (pdtype m)" by metis
    with h dimension_reducer_max[of m] show ?thesis by simp
  qed
  show "\<forall>p \<in> set (map (take 2) (points m)). length p = 2"
    if "pdim m = 3 \<and> (\<forall>p \<in> set (points m). length p = 3)"
    using that by simp
  show "dimension_reducer m = m"
    if h: "pdim m = 3 \<and> (\<exists>p \<in> set (points m). near (pdtype m) (1 / 10 ^ 12) \<bar>p ! 2\<bar>)"
  proof -
    from h obtain p where p: "p \<in> set (points m)" "near (pdtype m) (1 / 10 ^ 12) \<bar>p ! 2\<bar>"
      by blast
    from p(2) have "\<not> \<bar>p ! 2\<bar> < z_tol (pdtype m)" by (rule near_bump)
    with p(1) have "\<not> list_all (\<lambda>p. \<bar>p ! 2\<bar> < z_tol (pdtype m)) (points m)"
      unfolding list_all_iff by blast
    then show ?thesis by (simp add: dimension_reducer_def)
  qed
qed

lemma float_z_mesh_flat: "float_z mesh_flat"
proof -
  have "is_float Float64 (of_int 0 / 2 ^ 0)" "is_float Float64 (of_int 1 / 2 ^ 47)"
    by (rule is_floatI_div; simp add: mant_bits_def low_exp_def)+
  then show ?thesis by (simp add: float_z_def mesh_flat_def)
qed

lemma float_z_mesh_bump: "float_z mesh_bump"
proof -
  have "is_float Float64 (of_int 0 / 2 ^ 0)"
    "is_float Float64 (of_int (- 4951760157141521) / 2 ^ 92)"
    by (rule is_floatI_div; simp add: mant_bits_def low_exp_def)+
  then show ?thesis by (simp add: float_z_def mesh_bump_def)
qed

lemma float_z_mesh_single: "float_z mesh_single"
proof -
  have "is_float Float32 (of_int 0 / 2 ^ 0)" "is_float Float32 (of_int 14757395 / 2 ^ 67)"
    by (rule is_floatI_div; simp add: mant_bits_def low_exp_def)+
  then show ?thesis by (simp add: float_z_def mesh_single_def)
qed

theorem dimension_reducer_threshold_witness:
  "pdtype mesh_flat = Float64 \<and> float_z mesh_flat \<and>
   max_abs_z (points mesh_flat) < 1 / 10 ^ 13 \<and>
   dimension_reducer mesh_flat = mesh_flat\<lparr>pdim := 2, points := [[0, 0], [1, 0]]\<rparr> \<and>
   list_all (\<lambda>p. length p = 2) (points (dimension_reducer mesh_flat)) \<and>
   pdtype mesh_bump = Float64 \<and> float_z mesh_bump \<and>
   \<not> max_abs_z (points mesh_bump) < 1 / 10 ^ 13 \<and>
   (\<exists>p \<in> set (points mesh_bump). near (pdtype mesh_bump) (1 / 10 ^ 12) \<bar>p ! 2\<bar>) \<and>
   dimension_reducer mesh_bump = mesh_bump \<and>
   pdim mesh_planar \<noteq> 3 \<and>
   dimension_reducer mesh_planar = mesh_planar \<and>
   pdtype mesh_single = Float32 \<and> float_z mesh_single \<and>
   \<not> max_abs_z (points mesh_single) < 14757395 / 2 ^ 67 \<and>
   dimension_reducer mesh_single = mesh_single"
proof -
  have f: "pdim mesh_flat = 3 \<and> pdtype mesh_flat = Float64 \<and> float_z mesh_flat \<and>
      points mesh_flat \<noteq> [] \<and> max_abs_z (points mesh_flat) < 1 / 10 ^ 13"
    using float_z_mesh_flat by (simp add: mesh_flat_def max_abs_z_def)
  have b: "pdim mesh_bump = 3 \<and> pdtype mesh_bump = Float64 \<and> float_z mesh_bump \<and>
      points mesh_bump \<noteq> [] \<and> \<not> max_abs_z (points mesh_bump) < 1 / 10 ^ 13"
    using float_z_mesh_bump by (simp add: mesh_bump_def max_abs_z_def)
  have b': "pdim mesh_bump = 3 \<and>
      (\<exists>p \<in> set (points mesh_bump). near (pdtype mesh_bump) (1 / 10 ^ 12) \<bar>p ! 2\<bar>)"
    by (simp add: mesh_bump_def near_def mant_bits_def)
  have p: "pdim mesh_planar \<noteq> 3" by (simp add: mesh_planar_def)
  have l: "pdim mesh_flat = 3 \<and> (\<forall>p \<in> set (points mesh_flat). length p = 3)"
    by (simp add: mesh_flat_def)
  have s: "pdim mesh_single = 3 \<and> pdtype mesh_single = Float32 \<and>
      points mesh_single \<noteq> [] \<and> \<not> max_abs_z (points mesh_single) < 14757395 / 2 ^ 67"
    by (simp add: mesh_single_def max_abs_z_def)
  from dimension_reducer_threshold[of mesh_flat] f
  have 1: "dimension_reducer mesh_flat = mesh_flat\<lparr>pdim := 2, points := map (take 2) (points mesh_flat)\<rparr>"
    by blast
  have 2: "map (take 2) (points mesh_flat) = [[0, 0], [1, 0]]" by (simp add: mesh_flat_def)
  from dimension_reducer_threshold[of mesh_flat] l
  have "\<forall>p \<in> set (map (take 2) (points mesh_flat)). length p = 2" by blast
  then have 3: "list_all (\<lambda>p. length p = 2) (points (dimension_reducer mesh_flat))"
    unfolding 1 by (simp add: list_all_iff)
  from dimension_reducer_threshold[of mesh_bump] b
  have 4: "dimension_reducer mesh_bump = mesh_bump" by blast
  from dimension_reducer_threshold[of mesh_bump] b'
  have 6: "dimension_reducer mesh_bump = mesh_bump" by blast
  from dimension_reducer_threshold[of mesh_planar] p
  have 5: "dimension_reducer mesh_planar = mesh_planar" by blast
  from dimension_reducer_threshold[of mesh_single] s
  have 7: "dimension_reducer mesh_single = mesh_single" by blast
  from f b b' p s float_z_mesh_single 1 2 3 4 5 6 7 show ?thesis by simp
qed

text \<open>
  On a \<open>float32\<close> array the bound is the \<open>float32\<close> cast of the literal, which lies
  below \<open>10^-13\<close>: an array whose largest \<open>|z|\<close> is that very number keeps its three
  components.
\<close>

lemma dimension_reducer_float32_boundary:
  "pdtype mesh_single = Float32 \<and> max_abs_z (points mesh_single) < 1 / 10 ^ 13 \<and>
   dimension_reducer mesh_single = mesh_single"
  by (simp add: mesh_single_def max_abs_z_def dimension_reducer_def z_tol_def)

section \<open>The vertex pruner\<close>

lemma concat_each_eq:
  "concat_each cs =
     (if \<exists>c \<in> set cs. cdata c = [] then Inl ValueError
      else Inr (map (\<lambda>c. concat (cdata c)) cs))"
  by (induction cs) (auto simp: np_concatenate_def)

lemma set_flat_cells: "set (flat_cells cs) = referenced cs"
  by (auto simp: flat_cells_def referenced_def)

lemma np_unique_inverse_eq:
  "np_unique_inverse ar =
     (sorted_list_of_set (set ar), map (index_of (sorted_list_of_set (set ar))) ar)"
  by (simp add: np_unique_inverse_def Let_def sorted_list_of_set_sort_remdups)

lemma index_of_mem: "v \<in> set us \<Longrightarrow> index_of us v < length us \<and> us ! index_of us v = v"
  by (induction us) auto

lemma index_of_nth: "distinct us \<Longrightarrow> i < length us \<Longrightarrow> index_of us (us ! i) = i"
proof (induction us arbitrary: i)
  case Nil
  then show ?case by simp
next
  case (Cons u us)
  show ?case
  proof (cases i)
    case 0
    then show ?thesis by simp
  next
    case (Suc k)
    with Cons.prems have k: "k < length us" "us ! k \<in> set us" by simp_all
    with Cons.prems have "u \<noteq> us ! k" by auto
    with Cons.IH[of k] Cons.prems k Suc show ?thesis by simp
  qed
qed

lemma reshape_0 [simp]: "reshape 0 c flat = []"
  by (simp add: reshape_def)

lemma reshape_Suc: "reshape (Suc n) c flat = take c flat # reshape n c (drop c flat)"
proof -
  have "[0..<Suc n] = 0 # map Suc [0..<n]" by (simp add: upt_conv_Cons map_Suc_upt)
  then have "reshape (Suc n) c flat =
      take c (drop 0 flat) # map (\<lambda>i. take c (drop (Suc i * c) flat)) [0..<n]"
    unfolding reshape_def by (simp add: comp_def)
  also have "map (\<lambda>i. take c (drop (Suc i * c) flat)) [0..<n] = reshape n c (drop c flat)"
    unfolding reshape_def by (simp add: add.commute)
  finally show ?thesis by simp
qed

lemma reshape_concat:
  "\<forall>r \<in> set rows. length r = c \<Longrightarrow> reshape (length rows) c (concat rows @ rest) = rows"
  by (induction rows) (simp_all add: reshape_Suc)

lemma length_concat_rect:
  "\<forall>r \<in> set rows. length r = c \<Longrightarrow> length (concat rows) = length rows * c"
  by (induction rows) simp_all

lemma rebuild_cells_map:
  "rect_cells cs \<Longrightarrow>
   rebuild_cells (pre @ map f (flat_cells cs) @ post) (length pre) cs
     = map (\<lambda>c. c\<lparr>cdata := map (map f) (cdata c)\<rparr>) cs"
proof (induction cs arbitrary: pre)
  case Nil
  show ?case by simp
next
  case (Cons c cs)
  let ?rows = "cdata c"
  let ?n = "length ?rows * carity c"
  let ?here = "map f (concat ?rows)"
  from Cons.prems have rc: "\<forall>r \<in> set ?rows. length r = carity c" and rcs: "rect_cells cs"
    unfolding rect_cells_def by simp_all
  have n: "length ?here = ?n" using length_concat_rect[OF rc] by simp
  have fl: "pre @ map f (flat_cells (c # cs)) @ post
      = (pre @ ?here) @ map f (flat_cells cs) @ post"
    by (simp add: flat_cells_def)
  have tk: "take ?n (drop (length pre) (pre @ map f (flat_cells (c # cs)) @ post)) = ?here"
    unfolding fl using n by simp
  have "\<forall>r \<in> set (map (map f) ?rows). length r = carity c" using rc by simp
  from reshape_concat[OF this, of "[]"]
  have rs: "reshape (length ?rows) (carity c) ?here = map (map f) ?rows"
    by (simp add: map_concat)
  have k: "length pre + ?n = length (pre @ ?here)" using n by simp
  have "rebuild_cells (pre @ map f (flat_cells (c # cs)) @ post) (length pre) (c # cs)
      = c\<lparr>cdata := map (map f) ?rows\<rparr>
          # rebuild_cells (pre @ map f (flat_cells (c # cs)) @ post) (length (pre @ ?here)) cs"
    by (simp only: rebuild_cells.simps Let_def tk rs k)
  also have "rebuild_cells (pre @ map f (flat_cells (c # cs)) @ post) (length (pre @ ?here)) cs
      = map (\<lambda>c. c\<lparr>cdata := map (map f) (cdata c)\<rparr>) cs"
    unfolding fl by (rule Cons.IH[OF rcs])
  finally show ?case by simp
qed

lemma take_each_eq:
  "take_each kvs idx =
     (if \<forall>(key, arr) \<in> set kvs. \<forall>i \<in> set idx. i < length arr
      then Inr (map (\<lambda>(key, arr). (key, map (\<lambda>i. arr ! i) idx)) kvs)
      else Inl IndexError)"
  by (induction kvs idx rule: take_each.induct) (auto simp: np_take_def list_all_iff)

lemma finite_referenced [simp]: "finite (referenced cs)"
  by (simp add: referenced_def)

lemma set_compact_ids [simp]: "set (compact_ids cs) = referenced cs"
  by (simp add: compact_ids_def)

lemma compact_ids_sorted: "sorted (compact_ids cs) \<and> distinct (compact_ids cs)"
  by (simp add: compact_ids_def)

lemma vertex_pruner_eq:
  assumes rect: "rect_cells (cells m)"
  shows "vertex_pruner m =
     (if cells m = [] \<or> (\<exists>c \<in> set (cells m). cdata c = []) then Inl ValueError
      else if \<not> (\<forall>v \<in> referenced (cells m). v < length (points m)) then Inl IndexError
      else if \<not> (\<forall>(key, arr) \<in> set (point_data m). \<forall>v \<in> referenced (cells m). v < length arr)
        then Inl IndexError
      else Inr (compacted m))"
proof (cases "cells m = [] \<or> (\<exists>c \<in> set (cells m). cdata c = [])")
  case True
  then show ?thesis
    by (auto simp: vertex_pruner_def concat_each_eq np_concatenate_def)
next
  case False
  let ?cs = "cells m"
  let ?R = "compact_ids ?cs"
  from False have ce: "concat_each ?cs = Inr (map (\<lambda>c. concat (cdata c)) ?cs)"
    by (simp add: concat_each_eq)
  from False have nc: "np_concatenate (map (\<lambda>c. concat (cdata c)) ?cs) = Inr (flat_cells ?cs)"
    by (simp add: np_concatenate_def flat_cells_def)
  have ui: "np_unique_inverse (flat_cells ?cs) = (?R, map (index_of ?R) (flat_cells ?cs))"
    by (simp add: np_unique_inverse_eq set_flat_cells compact_ids_def)
  have rb: "rebuild_cells (map (index_of ?R) (flat_cells ?cs)) 0 ?cs
      = map (\<lambda>c. c\<lparr>cdata := map (map (index_of ?R)) (cdata c)\<rparr>) ?cs"
    using rebuild_cells_map[OF rect, of "[]" "index_of ?R" "[]"] by simp
  have tp: "np_take (points m) ?R =
      (if \<forall>v \<in> referenced ?cs. v < length (points m) then Inr (map (\<lambda>v. points m ! v) ?R)
       else Inl IndexError)"
    by (simp add: np_take_def list_all_iff)
  have td: "take_each (point_data m) ?R =
      (if \<forall>(key, arr) \<in> set (point_data m). \<forall>v \<in> referenced ?cs. v < length arr
       then Inr (map (\<lambda>(key, arr). (key, map (\<lambda>v. arr ! v) ?R)) (point_data m))
       else Inl IndexError)"
    by (simp add: take_each_eq)
  have "vertex_pruner m =
     (case np_take (points m) ?R of
        Inl e \<Rightarrow> Inl e
      | Inr pts \<Rightarrow>
          (case take_each (point_data m) ?R of
             Inl e \<Rightarrow> Inl e
           | Inr pd \<Rightarrow>
               Inr (m\<lparr>points := pts,
                      cells := map (\<lambda>c. c\<lparr>cdata := map (map (index_of ?R)) (cdata c)\<rparr>) ?cs,
                      point_data := pd\<rparr>)))"
    by (simp add: vertex_pruner_def ce nc ui rb split: sum.splits)
  then show ?thesis
    using False unfolding tp td by (simp add: compacted_def Let_def)
qed

lemma vertex_pruner_Inr_iff:
  assumes rect: "rect_cells (cells m)"
  shows "vertex_pruner m = Inr m' \<longleftrightarrow> prunable m \<and> m' = compacted m"
  unfolding vertex_pruner_eq[OF rect] prunable_def by auto

lemma compacted_in_range:
  assumes "c \<in> set (cells (compacted m))" "r \<in> set (cdata c)" "v \<in> set r"
  shows "v < length (points (compacted m))"
proof -
  let ?R = "compact_ids (cells m)"
  from assms(1) obtain c0 where c0: "c0 \<in> set (cells m)"
    and c: "c = c0\<lparr>cdata := map (map (index_of ?R)) (cdata c0)\<rparr>"
    by (auto simp: compacted_def Let_def)
  from assms(2) c obtain r0 where r0: "r0 \<in> set (cdata c0)" and r: "r = map (index_of ?R) r0"
    by auto
  from assms(3) r obtain v0 where v0: "v0 \<in> set r0" and v: "v = index_of ?R v0" by auto
  from c0 r0 v0 have "v0 \<in> referenced (cells m)" unfolding referenced_def by blast
  then have "v0 \<in> set ?R" by simp
  from index_of_mem[OF this] have "v < length ?R" unfolding v by simp
  then show ?thesis by (simp add: compacted_def Let_def)
qed

text \<open>
  Claim C4. With \<open>prune_vertices\<close>: let \<open>R\<close> be the ids some cell refers to, in
  ascending order. Whenever the pruner returns, it returns the mesh in which every cell
  entry is replaced by its position in \<open>R\<close> (the \<open>i\<close>-th smallest id becomes \<open>i\<close>),
  and the point array and every point-data array consist of exactly the rows at \<open>R\<close>,
  in that order, so that points no cell refers to are gone. Every cell entry of the
  result lies below the number of new points. The pruner returns on exactly the meshes
  with at least one cell block, no block without cells, and every referenced id inside
  the point array and the point-data arrays.
\<close>

theorem vertex_pruner_compacts:
  assumes "rect_cells (cells m)"
  shows "(vertex_pruner m = Inr m' \<longleftrightarrow> prunable m \<and> m' = compacted m) \<and>
         sorted (compact_ids (cells m)) \<and> distinct (compact_ids (cells m)) \<and>
         set (compact_ids (cells m)) = referenced (cells m) \<and>
         (\<forall>i < length (compact_ids (cells m)).
             index_of (compact_ids (cells m)) (compact_ids (cells m) ! i) = i) \<and>
         (\<forall>c \<in> set (cells (compacted m)). \<forall>r \<in> set (cdata c). \<forall>v \<in> set r.
             v < length (points (compacted m)))"
proof -
  have "vertex_pruner m = Inr m' \<longleftrightarrow> prunable m \<and> m' = compacted m"
    using assms by (rule vertex_pruner_Inr_iff)
  moreover have "\<forall>i < length (compact_ids (cells m)).
             index_of (compact_ids (cells m)) (compact_ids (cells m) ! i) = i"
    using compact_ids_sorted[of "cells m"] by (simp add: index_of_nth)
  moreover have "\<forall>c \<in> set (cells (compacted m)). \<forall>r \<in> set (cdata c). \<forall>v \<in> set r.
             v < length (points (compacted m))"
    using compacted_in_range by blast
  ultimately show ?thesis using compact_ids_sorted[of "cells m"] by simp
qed

lemma mesh_loose_facts:
  "rect_cells (cells mesh_loose)" "prunable mesh_loose" "compacted mesh_loose = mesh_tight"
  "compact_ids (cells mesh_loose) = [0, 2, 5]"
  by code_simp+

theorem vertex_pruner_compacts_witness:
  "rect_cells (cells mesh_loose) \<and> prunable mesh_loose \<and>
   vertex_pruner mesh_loose = Inr mesh_tight \<and>
   compact_ids (cells mesh_loose) = [0, 2, 5] \<and>
   list_all (\<lambda>c. list_all (\<lambda>r. list_all (\<lambda>v. v < length (points mesh_tight)) r) (cdata c))
     (cells mesh_tight)"
proof -
  note T = vertex_pruner_compacts[OF mesh_loose_facts(1), of mesh_tight,
      unfolded mesh_loose_facts(3)]
  from T mesh_loose_facts(2) have "vertex_pruner mesh_loose = Inr mesh_tight" by blast
  moreover from T have "\<forall>c \<in> set (cells mesh_tight). \<forall>r \<in> set (cdata c). \<forall>v \<in> set r.
      v < length (points mesh_tight)" by blast
  ultimately show ?thesis using mesh_loose_facts by (simp add: list_all_iff)
qed

lemma index_of_image:
  assumes "distinct us"
  shows "index_of us ` set us = {0..<length us}"
proof (intro set_eqI iffI)
  fix i assume "i \<in> index_of us ` set us"
  then show "i \<in> {0..<length us}" using index_of_mem[of _ us] by auto
next
  fix i assume "i \<in> {0..<length us}"
  then have i: "i < length us" by simp
  then have "index_of us (us ! i) = i" using assms by (simp add: index_of_nth)
  moreover have "us ! i \<in> set us" using i by simp
  ultimately show "i \<in> index_of us ` set us" by force
qed

lemma index_of_upt: "v < n \<Longrightarrow> index_of [0..<n] v = v"
  using index_of_nth[of "[0..<n]" v] by simp

lemma referenced_map:
  "referenced (map (\<lambda>c. c\<lparr>cdata := map (map f) (cdata c)\<rparr>) cs) = f ` referenced cs"
  by (auto simp: referenced_def)

lemma cells_compacted:
  "cells (compacted m) =
     map (\<lambda>c. c\<lparr>cdata := map (map (index_of (compact_ids (cells m)))) (cdata c)\<rparr>) (cells m)"
  by (simp add: compacted_def Let_def)

lemma length_points_compacted: "length (points (compacted m)) = length (compact_ids (cells m))"
  by (simp add: compacted_def Let_def)

lemma referenced_compacted:
  "referenced (cells (compacted m)) = {0..<length (compact_ids (cells m))}"
proof -
  have "referenced (cells (compacted m)) = index_of (compact_ids (cells m)) ` set (compact_ids (cells m))"
    unfolding cells_compacted referenced_map by simp
  also have "\<dots> = {0..<length (compact_ids (cells m))}"
    using compact_ids_sorted[of "cells m"] by (intro index_of_image) simp
  finally show ?thesis .
qed

lemma compact_ids_compacted:
  "compact_ids (cells (compacted m)) = [0..<length (compact_ids (cells m))]"
  unfolding compact_ids_def[of "cells (compacted m)"] referenced_compacted by simp

lemma rect_cells_compacted: "rect_cells (cells m) \<Longrightarrow> rect_cells (cells (compacted m))"
  unfolding cells_compacted rect_cells_def by auto

lemma prunable_compacted:
  assumes "prunable m"
  shows "prunable (compacted m)"
proof -
  let ?n = "length (compact_ids (cells m))"
  from assms have ne: "cells m \<noteq> []" and nb: "\<forall>c \<in> set (cells m). cdata c \<noteq> []"
    unfolding prunable_def by blast+
  have 1: "cells (compacted m) \<noteq> []" using ne by (simp add: cells_compacted)
  have 2: "\<forall>c \<in> set (cells (compacted m)). cdata c \<noteq> []"
    using nb by (auto simp: cells_compacted)
  have 3: "\<forall>v \<in> referenced (cells (compacted m)). v < length (points (compacted m))"
    unfolding referenced_compacted length_points_compacted by simp
  have 4: "\<forall>(key, arr) \<in> set (point_data (compacted m)).
      \<forall>v \<in> referenced (cells (compacted m)). v < length arr"
    unfolding referenced_compacted by (auto simp: compacted_def Let_def)
  show ?thesis unfolding prunable_def using 1 2 3 4 by blast
qed

lemma compacted_compacted: "compacted (compacted m) = compacted m"
proof -
  let ?m' = "compacted m"
  let ?n = "length (compact_ids (cells m))"
  have R': "compact_ids (cells ?m') = [0..<?n]" by (rule compact_ids_compacted)
  have p: "map (\<lambda>v. points ?m' ! v) [0..<?n] = points ?m'"
    using map_nth[of "points ?m'"] by (simp add: length_points_compacted)
  have c: "map (\<lambda>c. c\<lparr>cdata := map (map (index_of [0..<?n])) (cdata c)\<rparr>) (cells ?m') = cells ?m'"
  proof (rule map_idI)
    fix c assume c: "c \<in> set (cells ?m')"
    have "map (map (index_of [0..<?n])) (cdata c) = cdata c"
    proof (rule map_idI, rule map_idI)
      fix r v assume "r \<in> set (cdata c)" "v \<in> set r"
      with c have "v < ?n" using compacted_in_range[of c m r v]
        by (simp add: length_points_compacted)
      then show "index_of [0..<?n] v = v" by (rule index_of_upt)
    qed
    then show "c\<lparr>cdata := map (map (index_of [0..<?n])) (cdata c)\<rparr> = c" by simp
  qed
  have d: "map (\<lambda>(key, arr). (key, map (\<lambda>v. arr ! v) [0..<?n])) (point_data ?m') = point_data ?m'"
  proof (rule map_idI)
    fix kv assume kv: "kv \<in> set (point_data ?m')"
    obtain key arr where ka: "kv = (key, arr)" by (cases kv)
    with kv have "length arr = ?n" by (auto simp: compacted_def Let_def)
    then have "map (\<lambda>v. arr ! v) [0..<?n] = arr" using map_nth[of arr] by simp
    then show "(case kv of (key, arr) \<Rightarrow> (key, map (\<lambda>v. arr ! v) [0..<?n])) = kv"
      unfolding ka by simp
  qed
  have "compacted ?m' =
      ?m'\<lparr>points := map (\<lambda>v. points ?m' ! v) [0..<?n],
           cells := map (\<lambda>c. c\<lparr>cdata := map (map (index_of [0..<?n])) (cdata c)\<rparr>) (cells ?m'),
           point_data := map (\<lambda>(key, arr). (key, map (\<lambda>v. arr ! v) [0..<?n])) (point_data ?m')\<rparr>"
    unfolding compacted_def[of ?m'] Let_def R' ..
  also have "\<dots> = ?m'" unfolding p c d by simp
  finally show ?thesis .
qed

text \<open>
  Claim C7. Pruning is idempotent: running the pruner on its own result gives that
  result again, points, cells, point data and cell data alike; where the first run
  fails, so does the pair.
\<close>

theorem vertex_pruner_idempotent:
  assumes rect: "rect_cells (cells m)"
  shows "prune_twice m = vertex_pruner m"
proof (cases "vertex_pruner m")
  case (Inl e)
  then show ?thesis by (simp add: prune_twice_def)
next
  case (Inr m')
  then have "prunable m \<and> m' = compacted m" by (simp only: vertex_pruner_Inr_iff[OF rect])
  then have pr: "prunable m" and m': "m' = compacted m" by simp_all
  have "vertex_pruner (compacted m) = Inr (compacted m)"
    using vertex_pruner_Inr_iff[OF rect_cells_compacted[OF rect], of "compacted m"]
      prunable_compacted[OF pr] compacted_compacted[of m] by simp
  with Inr m' show ?thesis by (simp add: prune_twice_def)
qed

theorem vertex_pruner_idempotent_witness:
  "rect_cells (cells mesh_loose) \<and> vertex_pruner mesh_loose = Inr mesh_tight \<and>
   prune_twice mesh_loose = Inr mesh_tight \<and> vertex_pruner mesh_tight = Inr mesh_tight"
proof -
  have v: "vertex_pruner mesh_loose = Inr mesh_tight"
    using vertex_pruner_Inr_iff[OF mesh_loose_facts(1), of mesh_tight] mesh_loose_facts by simp
  from vertex_pruner_idempotent[OF mesh_loose_facts(1)] v
  have t: "prune_twice mesh_loose = Inr mesh_tight" by simp
  then have "vertex_pruner mesh_tight = Inr mesh_tight" using v by (simp add: prune_twice_def)
  with v t mesh_loose_facts(1) show ?thesis by simp
qed

section \<open>Meshes without cells\<close>

lemma cell_type_filter_empty_iff: "cells (cell_type_filter m) = [] \<longleftrightarrow> cells m = []"
proof
  assume e: "cells (cell_type_filter m) = []"
  show "cells m = []"
  proof (rule ccontr)
    assume ne: "cells m \<noteq> []"
    have "\<exists>c \<in> set (cells m). ctype c \<in> keep_types (cells m)"
    proof (cases "\<exists>c \<in> set (cells m). ctype c \<in> cells_3d")
      case True
      then show ?thesis by (simp add: keep_types_def)
    next
      case n3: False
      show ?thesis
      proof (cases "\<exists>c \<in> set (cells m). ctype c \<in> cells_2d")
        case True
        with n3 show ?thesis by (simp add: keep_types_def)
      next
        case False
        from ne obtain c where "c \<in> set (cells m)" by (cases "cells m") auto
        with n3 False show ?thesis by (auto simp: keep_types_def)
      qed
    qed
    with e show False by (auto simp: cell_type_filter_def Let_def filter_empty_conv)
  qed
next
  assume "cells m = []"
  then show "cells (cell_type_filter m) = []" by (simp add: cell_type_filter_def Let_def)
qed

lemma cells_dimension_reducer: "cells (dimension_reducer m) = cells m"
  by (simp add: dimension_reducer_def)

lemma vertex_pruner_no_cells:
  "cells m = [] \<or> (\<exists>c \<in> set (cells m). cdata c = []) \<Longrightarrow> vertex_pruner m = Inl ValueError"
  by (auto simp: vertex_pruner_def concat_each_eq np_concatenate_def)

lemma length_rebuild_cells [simp]: "length (rebuild_cells uidx k cs) = length cs"
  by (induction cs arbitrary: k) (simp_all add: Let_def)

lemma vertex_pruner_Inr_cells:
  assumes "vertex_pruner m = Inr m'"
  shows "cells m' \<noteq> []"
proof -
  from assms have ne: "cells m \<noteq> []"
    using vertex_pruner_no_cells[of m] by auto
  from assms have "length (cells m') = length (cells m)"
    by (auto simp: vertex_pruner_def np_unique_inverse_def Let_def split: sum.splits)
  with ne show ?thesis by auto
qed

text \<open>
  Claim C9 (as amended). No \<open>EmptyResultError\<close> exists. When the vertex pruner runs on
  a mesh without cell blocks, or with a cell block that holds no cells, the call fails
  with the \<open>ValueError\<close> of \<open>numpy.concatenate\<close>; a result of the pruner has at least
  one cell block. With the pruner switched off the call never fails, and a mesh without
  cell blocks is handed back as it is. The cell-type filter leaves no block only where
  there was none.
\<close>

theorem empty_mesh_handling:
  "(cells (cell_type_filter m) = [] \<longleftrightarrow> cells m = []) \<and>
   (cells (if rl then cell_type_filter m else m) = [] \<or>
    (\<exists>c \<in> set (cells (if rl then cell_type_filter m else m)). cdata c = [])
      \<longrightarrow> generate_mesh True pz rl m = Inl ValueError) \<and>
   (vertex_pruner m = Inr m' \<longrightarrow> cells m' \<noteq> []) \<and>
   (\<exists>m''. generate_mesh False pz rl m = Inr m'' \<and>
      cells m'' = cells (if rl then cell_type_filter m else m))"
proof (intro conjI impI)
  show "cells (cell_type_filter m) = [] \<longleftrightarrow> cells m = []" by (rule cell_type_filter_empty_iff)
  show "generate_mesh True pz rl m = Inl ValueError"
    if "cells (if rl then cell_type_filter m else m) = [] \<or>
        (\<exists>c \<in> set (cells (if rl then cell_type_filter m else m)). cdata c = [])"
    using vertex_pruner_no_cells[OF that] by (simp add: generate_mesh_def)
  show "cells m' \<noteq> []" if "vertex_pruner m = Inr m'"
    using that by (rule vertex_pruner_Inr_cells)
  show "\<exists>m''. generate_mesh False pz rl m = Inr m'' \<and>
      cells m'' = cells (if rl then cell_type_filter m else m)"
    by (simp add: generate_mesh_def Let_def cells_dimension_reducer)
qed

theorem empty_mesh_handling_witness:
  "cells mesh_no_cells = [] \<and>
   generate_mesh True False True mesh_no_cells = Inl ValueError \<and>
   vertex_pruner mesh_loose = Inr mesh_tight \<and> cells mesh_tight \<noteq> [] \<and>
   (\<exists>m''. generate_mesh False False True mesh_no_cells = Inr m'' \<and> cells m'' = [])"
proof -
  have e: "cells mesh_no_cells = []" by (simp add: mesh_no_cells_def)
  then have f: "cells (cell_type_filter mesh_no_cells) = []"
    by (simp add: cell_type_filter_empty_iff)
  have v: "vertex_pruner mesh_loose = Inr mesh_tight"
    using vertex_pruner_Inr_iff[OF mesh_loose_facts(1), of mesh_tight] mesh_loose_facts by simp
  from empty_mesh_handling[of mesh_no_cells True False mesh_no_cells] f
  have 1: "generate_mesh True False True mesh_no_cells = Inl ValueError"
    and 2: "\<exists>m''. generate_mesh False False True mesh_no_cells = Inr m'' \<and> cells m'' = []"
    by simp_all
  from empty_mesh_handling[of mesh_loose False False mesh_tight] v
  have 3: "cells mesh_tight \<noteq> []" by blast
  from e 1 2 3 v show ?thesis by blast
qed

theorem empty_mesh_silent_counterexample:
  "cells (cell_type_filter mesh_no_cells) = [] \<and>
   generate_mesh False False True mesh_no_cells = Inr mesh_no_cells \<and>
   generate_mesh True False True mesh_no_cells = Inl ValueError \<and>
   generate_mesh True False True mesh_no_cells \<noteq> Inl EmptyResultError"
proof -
  have 1: "cells (cell_type_filter mesh_no_cells) = []"
    by (simp add: cell_type_filter_empty_iff mesh_no_cells_def)
  have 2: "generate_mesh False False True mesh_no_cells = Inr mesh_no_cells"
    unfolding mesh_no_cells_def by code_simp
  have 3: "generate_mesh True False True mesh_no_cells = Inl ValueError"
    unfolding mesh_no_cells_def by code_simp
  from 1 2 3 show ?thesis by simp
qed

end
